theory Spec2Isabelle
  imports Main "HOL-Library.Word"
begin

section \<open>Data model (src/types/preferences.types.ts)\<close>

text \<open>
  JavaScript strings are modelled as \<open>string\<close>: lists of 8-bit characters, that is
  the code units below 256 (Latin-1). An optional field (\<open>quality?: Quality\<close>) is an
  \<open>option\<close>; \<open>undefined\<close> is \<open>None\<close>.
\<close>

datatype Quality = Q4K | FHD | HD | SD | Auto

record ContentVariant =
  cv_id :: string
  cv_url :: string
  cv_quality :: "Quality option"
  cv_language :: "string option"

text \<open>A JavaScript number as far as this code computes one: an integer or \<open>NaN\<close>.\<close>

datatype number = NaN | Num int

record ContentMetadata =
  md_cleanName :: string
  md_country :: "string option"
  md_language :: "string option"
  md_quality :: "Quality option"
  md_year :: "number option"
  md_season :: "number option"
  md_episode :: "number option"

datatype ContentType = TChannel | TMovie | TSeries

record DeduplicatedContent =
  dc_id :: string
  dc_name :: string
  dc_logo :: "string option"
  dc_group :: "string option"
  dc_type :: ContentType
  dc_metadata :: ContentMetadata
  dc_variants :: "ContentVariant list"

record ChannelPreferences =
  cp_countries :: "string list"
  cp_categories :: "string list"
  cp_defaultQuality :: Quality

record MoviePreferences =
  mp_preferredLanguage :: string
  mp_subtitleLanguage :: string
  mp_categories :: "string list"

record UserPreferences =
  up_onboardingCompleted :: bool
  up_channels :: ChannelPreferences
  up_movies :: MoviePreferences
  up_series :: MoviePreferences

section \<open>Variant selection (src/utils/contentParser.ts, src/utils/deduplicator.ts)\<close>

text \<open>\<open>Array.prototype.indexOf\<close>: the first position of the element, or \<open>-1\<close>.\<close>

fun indexOf :: "'a list \<Rightarrow> 'a \<Rightarrow> int" where
  "indexOf [] x = -1"
| "indexOf (y # ys) x =
     (if y = x then 0 else (let r = indexOf ys x in if r < 0 then -1 else r + 1))"

text \<open>Reading an array at a position: \<open>undefined\<close> (\<open>None\<close>) out of range.\<close>

definition at_index :: "'a list \<Rightarrow> nat \<Rightarrow> 'a option" where
  "at_index xs i = (if i < length xs then Some (xs ! i) else None)"

definition qualityOrder :: "Quality list" where
  "qualityOrder = [Q4K, FHD, HD, SD]"

text \<open>The sort key of \<open>selectBestQuality\<close>:
  \<open>a.quality ? qualityOrder.indexOf(a.quality) : 999\<close>.\<close>

definition qualityIdx :: "Quality option \<Rightarrow> int" where
  "qualityIdx q = (case q of None \<Rightarrow> 999 | Some t \<Rightarrow> indexOf qualityOrder t)"

text \<open>
  \<open>selectBestQuality\<close>. The comparator \<open>aIdx - bIdx\<close> orders by the key alone and
  \<open>Array.prototype.sort\<close> is stable, so the sort is the stable sort by key, which
  \<open>sort_key\<close> is. The entries \<open>{index: i, quality: v.quality}\<close> of the mapped
  array are pairs.
\<close>

definition entries :: "ContentVariant list \<Rightarrow> (nat \<times> Quality option) list" where
  "entries variants = zip [0..<length variants] (map cv_quality variants)"

definition sortedIndices :: "ContentVariant list \<Rightarrow> (nat \<times> Quality option) list" where
  "sortedIndices variants = sort_key (\<lambda>e. qualityIdx (snd e)) (entries variants)"

definition selectBestQuality :: "ContentVariant list \<Rightarrow> Quality \<Rightarrow> nat" where
  "selectBestQuality variants preferredQuality =
     (let preferredIndex = indexOf qualityOrder preferredQuality in
      case find (\<lambda>e. qualityIdx (snd e) \<ge> preferredIndex) (sortedIndices variants) of
        Some e \<Rightarrow> fst e
      | None \<Rightarrow> (case sortedIndices variants of [] \<Rightarrow> 0 | e # _ \<Rightarrow> fst e))"

text \<open>\<open>variants[idx] || variants[0]\<close>\<close>

definition variantOrFirst :: "ContentVariant list \<Rightarrow> nat \<Rightarrow> ContentVariant option" where
  "variantOrFirst variants idx =
     (case at_index variants idx of Some v \<Rightarrow> Some v | None \<Rightarrow> at_index variants 0)"

text \<open>\<open>selectBestVariant\<close>; the result is \<open>None\<close> where the source returns
  \<open>undefined\<close> (an empty variants array).\<close>

definition selectBestVariant :: "DeduplicatedContent \<Rightarrow> UserPreferences \<Rightarrow> ContentVariant option" where
  "selectBestVariant content preferences =
     (let variants = dc_variants content in
      if length variants = 1 then at_index variants 0
      else case dc_type content of
        TChannel \<Rightarrow>
          variantOrFirst variants
            (selectBestQuality variants (cp_defaultQuality (up_channels preferences)))
      | TMovie \<Rightarrow>
          (case find (\<lambda>v. cv_language v = Some (mp_preferredLanguage (up_movies preferences))) variants of
             Some langMatch \<Rightarrow> Some langMatch
           | None \<Rightarrow> variantOrFirst variants (selectBestQuality variants FHD))
      | TSeries \<Rightarrow>
          (case find (\<lambda>v. cv_language v = Some (mp_preferredLanguage (up_series preferences))) variants of
             Some langMatch \<Rightarrow> Some langMatch
           | None \<Rightarrow> variantOrFirst variants (selectBestQuality variants FHD)))"


subsection \<open>The specification's reading of the channel rule\<close>

text \<open>
  The specification words the channel rule as "the closest tier \<open>\<ge>\<close> the user's
  preferred tier" in the order \<open>4K > FHD > HD > SD\<close>. The two definitions below follow
  those words, to be compared with \<open>selectBestVariant\<close>: a tier meets or exceeds the
  preference when it stands at or before it in \<open>qualityOrder\<close>, and the closest such
  tier is the lowest one among those that do.
\<close>

definition meetsOrExceeds :: "Quality option \<Rightarrow> Quality \<Rightarrow> bool" where
  "meetsOrExceeds q p =
     (case q of None \<Rightarrow> False
      | Some t \<Rightarrow> 0 \<le> indexOf qualityOrder t \<and> indexOf qualityOrder t \<le> indexOf qualityOrder p)"

definition spec_closestAtLeast :: "ContentVariant list \<Rightarrow> Quality \<Rightarrow> ContentVariant \<Rightarrow> bool" where
  "spec_closestAtLeast variants p v =
     (v \<in> set variants \<and> meetsOrExceeds (cv_quality v) p \<and>
      list_all (\<lambda>w. \<not> meetsOrExceeds (cv_quality w) p \<or>
                  qualityIdx (cv_quality w) \<le> qualityIdx (cv_quality v)) variants)"

subsection \<open>Sample data\<close>

definition mkVariant :: "string \<Rightarrow> Quality option \<Rightarrow> ContentVariant" where
  "mkVariant i q = \<lparr>cv_id = i, cv_url = ''http://host/'' @ i, cv_quality = q, cv_language = None\<rparr>"

definition sampleMetadata :: ContentMetadata where
  "sampleMetadata = \<lparr>md_cleanName = ''TF1'', md_country = Some ''FR'', md_language = None,
     md_quality = None, md_year = None, md_season = None, md_episode = None\<rparr>"

definition sampleChannel :: "ContentVariant list \<Rightarrow> DeduplicatedContent" where
  "sampleChannel vs = \<lparr>dc_id = ''a'', dc_name = ''TF1'', dc_logo = None, dc_group = None,
     dc_type = TChannel, dc_metadata = sampleMetadata, dc_variants = vs\<rparr>"

definition samplePreferences :: "Quality \<Rightarrow> UserPreferences" where
  "samplePreferences q = \<lparr>up_onboardingCompleted = True,
     up_channels = \<lparr>cp_countries = [], cp_categories = [], cp_defaultQuality = q\<rparr>,
     up_movies = \<lparr>mp_preferredLanguage = ''MULTI'', mp_subtitleLanguage = ''FR'', mp_categories = []\<rparr>,
     up_series = \<lparr>mp_preferredLanguage = ''MULTI'', mp_subtitleLanguage = ''FR'', mp_categories = []\<rparr>\<rparr>"

section \<open>EPG lookups (the useEPG hook)\<close>

text \<open>
  Timestamps are milliseconds, modelled as \<open>int\<close>. \<open>Date.now()\<close> is the parameter
  \<open>now\<close>, and the state \<open>epgData\<close> (a \<open>Map\<close> from channel id to programs) is a
  parameter too. The \<open>Date\<close> fields \<open>start\<close> and \<open>end\<close> repeat the two timestamps
  and are left out.
\<close>

record EpgProgram =
  ep_id :: string
  ep_channelId :: string
  ep_title :: string
  ep_description :: "string option"
  ep_startTimestamp :: int
  ep_endTimestamp :: int
  ep_isLive :: "bool option"
  ep_progress :: "int option"

definition getCurrentProgram :: "(string \<rightharpoonup> EpgProgram list) \<Rightarrow> int \<Rightarrow> string \<Rightarrow> EpgProgram option" where
  "getCurrentProgram epgData now channelId =
     (case epgData channelId of
        None \<Rightarrow> None
      | Some programs \<Rightarrow>
          if length programs = 0 then None
          else find (\<lambda>p. now \<ge> ep_startTimestamp p \<and> now \<le> ep_endTimestamp p) programs)"

definition sampleProgram :: EpgProgram where
  "sampleProgram = \<lparr>ep_id = ''1'', ep_channelId = ''tf1'', ep_title = ''Journal'',
     ep_description = None, ep_startTimestamp = 1000, ep_endTimestamp = 2000,
     ep_isLive = None, ep_progress = None\<rparr>"

definition sampleEpgData :: "string \<rightharpoonup> EpgProgram list" where
  "sampleEpgData = [''xtream-live-1'' \<mapsto> [sampleProgram]]"

text \<open>The specification's half-open interval \<open>[start, end)\<close>, for comparison.\<close>

definition spec_inHalfOpen :: "int \<Rightarrow> EpgProgram \<Rightarrow> bool" where
  "spec_inHalfOpen now p = (ep_startTimestamp p \<le> now \<and> now < ep_endTimestamp p)"

section \<open>Strings and regular expressions\<close>

subsection \<open>Characters\<close>

text \<open>
  The code unit of a character, and the character classes of ECMAScript on the code
  units below 256: \<open>\d\<close>, \<open>\s\<close> (also what \<open>trim\<close> removes: tab, line feed,
  vertical tab, form feed, carriage return, space, no-break space) and \<open>\w\<close>.
\<close>

definition code :: "char \<Rightarrow> nat" where
  "code c = of_char c"

definition isDigit :: "char \<Rightarrow> bool" where
  "isDigit c = (48 \<le> code c \<and> code c \<le> 57)"

definition isSpace :: "char \<Rightarrow> bool" where
  "isSpace c = (code c \<in> set [9, 10, 11, 12, 13, 32, 160])"

definition isWordChar :: "char \<Rightarrow> bool" where
  "isWordChar c = ((48 \<le> code c \<and> code c \<le> 57) \<or> (65 \<le> code c \<and> code c \<le> 90)
                   \<or> (97 \<le> code c \<and> code c \<le> 122) \<or> code c = 95)"

text \<open>
  \<open>Canonicalize\<close> of a case-insensitive pattern without the \<open>u\<close> flag: the code unit
  of the upper-case form when that form is one code unit (and not an ASCII one for a
  non-ASCII character). The micro sign and \<open>y\<close> with diaeresis have their upper-case
  forms at 924 and 376; the sharp s (223) has a two-unit upper-case form and stays.
\<close>

definition canonicalize :: "char \<Rightarrow> nat" where
  "canonicalize c =
     (let n = code c in
      if 97 \<le> n \<and> n \<le> 122 then n - 32
      else if 224 \<le> n \<and> n \<le> 254 \<and> n \<noteq> 247 then n - 32
      else if n = 181 then 924
      else if n = 255 then 376
      else n)"

definition charEq :: "bool \<Rightarrow> char \<Rightarrow> char \<Rightarrow> bool" where
  "charEq ignoreCase a b = (if ignoreCase then canonicalize a = canonicalize b else a = b)"

text \<open>\<open>String.prototype.toLowerCase\<close> and \<open>toUpperCase\<close> on the code units below 256.
  \<open>toUpperCase\<close> is only applied to two ASCII letters; the three characters whose
  upper-case form leaves the range (181, 223, 255) are left as they are.\<close>

definition lowerChar :: "char \<Rightarrow> char" where
  "lowerChar c =
     (let n = code c in
      if (65 \<le> n \<and> n \<le> 90) \<or> (192 \<le> n \<and> n \<le> 222 \<and> n \<noteq> 215) then char_of (n + 32) else c)"

definition upperChar :: "char \<Rightarrow> char" where
  "upperChar c =
     (let n = code c in
      if (97 \<le> n \<and> n \<le> 122) \<or> (224 \<le> n \<and> n \<le> 254 \<and> n \<noteq> 247) then char_of (n - 32) else c)"

definition toLowerCase :: "string \<Rightarrow> string" where
  "toLowerCase s = map lowerChar s"

definition toUpperCase :: "string \<Rightarrow> string" where
  "toUpperCase s = map upperChar s"

definition trim :: "string \<Rightarrow> string" where
  "trim s = rev (dropWhile isSpace (rev (dropWhile isSpace s)))"

subsection \<open>Patterns\<close>

text \<open>
  The regular expressions of the sources use literals, character classes, greedy
  repetition of a character class, sequence, alternation, an optional part, capture
  groups, \<open>\b\<close>, \<open>^\<close>, \<open>$\<close> and a negative lookahead. They are data, written as the
  source writes them.
\<close>

datatype cclass =
    CDigit
  | CSpace
  | CDot
  | CRange char char
  | COneOf string
  | CNoneOf string
  | CUnion cclass cclass

datatype regex =
    Lit string
  | Cls cclass
  | Rep cclass nat "nat option"
  | Seq regex regex
  | Alt regex regex
  | Opt regex
  | Grp nat regex
  | WordB
  | Bol
  | Eol
  | NotAhead regex

text \<open>
  Membership of a character in a class. Under \<open>ignoreCase\<close> a character is in a set
  when some member has the same canonical form; \<open>\d\<close> and \<open>\s\<close> hold no letters and
  \<open>.\<close> excludes the line terminators (line feed and carriage return below 256).
\<close>

fun inClass :: "bool \<Rightarrow> cclass \<Rightarrow> char \<Rightarrow> bool" where
  "inClass ic CDigit c = isDigit c"
| "inClass ic CSpace c = isSpace c"
| "inClass ic CDot c = (code c \<noteq> 10 \<and> code c \<noteq> 13)"
| "inClass ic (CRange lo hi) c =
     (if ic then list_ex (\<lambda>n. canonicalize (char_of n) = canonicalize c) [code lo..<Suc (code hi)]
      else code lo \<le> code c \<and> code c \<le> code hi)"
| "inClass ic (COneOf cs) c = list_ex (\<lambda>a. charEq ic a c) cs"
| "inClass ic (CNoneOf cs) c = (\<not> list_ex (\<lambda>a. charEq ic a c) cs)"
| "inClass ic (CUnion a b) c = (inClass ic a c \<or> inClass ic b c)"

text \<open>A literal at the head of the remaining input.\<close>

fun litPrefix :: "bool \<Rightarrow> string \<Rightarrow> string \<Rightarrow> bool" where
  "litPrefix ic [] s = True"
| "litPrefix ic (a # as) [] = False"
| "litPrefix ic (a # as) (c # cs) = (charEq ic a c \<and> litPrefix ic as cs)"

definition wordBoundary :: "string \<Rightarrow> nat \<Rightarrow> bool" where
  "wordBoundary s i =
     ((0 < i \<and> i \<le> length s \<and> isWordChar (s ! (i - 1))) \<noteq> (i < length s \<and> isWordChar (s ! i)))"

subsection \<open>Matching\<close>

text \<open>
  A match state is the position reached and the captures made so far. \<open>rmatch\<close> lists
  the states a pattern can end in from a state, in the order in which the backtracking
  matcher of ECMAScript tries them (greedy repetition tries the longest first, an
  alternation its left branch first); the match found at a start position is the head
  of the list.
\<close>

type_synonym captures = "(nat \<times> string) list"
type_synonym mstate = "nat \<times> captures"

fun rmatch :: "bool \<Rightarrow> string \<Rightarrow> regex \<Rightarrow> mstate \<Rightarrow> mstate list" where
  "rmatch ic s (Lit l) st =
     (if litPrefix ic l (drop (fst st) s) then [(fst st + length l, snd st)] else [])"
| "rmatch ic s (Cls c) st =
     (if fst st < length s \<and> inClass ic c (s ! fst st) then [(Suc (fst st), snd st)] else [])"
| "rmatch ic s (Rep c lo hi) st =
     (let n = length (takeWhile (inClass ic c) (drop (fst st) s));
          m = (case hi of None \<Rightarrow> n | Some h \<Rightarrow> min n h)
      in map (\<lambda>k. (fst st + k, snd st)) (rev [lo..<Suc m]))"
| "rmatch ic s (Seq r1 r2) st = concat (map (rmatch ic s r2) (rmatch ic s r1 st))"
| "rmatch ic s (Alt r1 r2) st = rmatch ic s r1 st @ rmatch ic s r2 st"
| "rmatch ic s (Opt r) st = filter (\<lambda>st'. fst st' \<noteq> fst st) (rmatch ic s r st) @ [st]"
| "rmatch ic s (Grp n r) st =
     map (\<lambda>st'. (fst st', (n, take (fst st' - fst st) (drop (fst st) s)) # snd st'))
       (rmatch ic s r st)"
| "rmatch ic s WordB st = (if wordBoundary s (fst st) then [st] else [])"
| "rmatch ic s Bol st = (if fst st = 0 then [st] else [])"
| "rmatch ic s Eol st = (if fst st = length s then [st] else [])"
| "rmatch ic s (NotAhead r) st = (if rmatch ic s r st = [] then [st] else [])"

text \<open>A match: where it starts, where it ends, and its captures.\<close>

record rxmatch =
  m_start :: nat
  m_end :: nat
  m_groups :: captures

text \<open>The first start position, among the given ones, at which the pattern matches.\<close>

fun firstMatch :: "bool \<Rightarrow> regex \<Rightarrow> string \<Rightarrow> nat list \<Rightarrow> rxmatch option" where
  "firstMatch ic re s [] = None"
| "firstMatch ic re s (i # is) =
     (case rmatch ic s re (i, []) of
        [] \<Rightarrow> firstMatch ic re s is
      | st # _ \<Rightarrow> Some \<lparr>m_start = i, m_end = fst st, m_groups = snd st\<rparr>)"

text \<open>\<open>RegExp.prototype.exec\<close> of a pattern without the \<open>g\<close> flag, \<open>test\<close>, the
  matched text \<open>m[0]\<close> and a capture \<open>m[n]\<close> (\<open>None\<close> is \<open>undefined\<close>).\<close>

definition regexExec :: "bool \<Rightarrow> regex \<Rightarrow> string \<Rightarrow> rxmatch option" where
  "regexExec ic re s = firstMatch ic re s [0..<Suc (length s)]"

definition regexTest :: "bool \<Rightarrow> regex \<Rightarrow> string \<Rightarrow> bool" where
  "regexTest ic re s = (regexExec ic re s \<noteq> None)"

definition matched :: "string \<Rightarrow> rxmatch \<Rightarrow> string" where
  "matched s m = take (m_end m - m_start m) (drop (m_start m) s)"

definition matchGroup :: "rxmatch \<Rightarrow> nat \<Rightarrow> string option" where
  "matchGroup m n = map_of (m_groups m) n"

text \<open>\<open>s.replace(re, rep)\<close> for a pattern without the \<open>g\<close> flag: the first match only.\<close>

definition replaceRegex :: "bool \<Rightarrow> regex \<Rightarrow> string \<Rightarrow> string \<Rightarrow> string" where
  "replaceRegex ic re rep s =
     (case regexExec ic re s of
        None \<Rightarrow> s
      | Some m \<Rightarrow> take (m_start m) s @ rep @ drop (m_end m) s)"

text \<open>\<open>s.replace(pat, rep)\<close> for a string \<open>pat\<close>: its first occurrence only.\<close>

fun replaceString :: "string \<Rightarrow> string \<Rightarrow> string \<Rightarrow> string" where
  "replaceString pat rep [] = (if pat = [] then rep else [])"
| "replaceString pat rep (c # cs) =
     (if litPrefix False pat (c # cs) then rep @ drop (length pat) (c # cs)
      else c # replaceString pat rep cs)"

text \<open>
  \<open>s.replace(re, rep)\<close> for a pattern with the \<open>g\<close> flag replaces every match, from
  left to right: each search starts where the last match ended, or one character
  further after an empty match. \<open>replaceScan\<close> walks the start positions in order;
  \<open>copied\<close> is the end of the last match (the input before it is already in the
  result) and \<open>next\<close> the position at which the next search starts.
\<close>

fun replaceScan :: "bool \<Rightarrow> regex \<Rightarrow> string \<Rightarrow> string \<Rightarrow> nat list \<Rightarrow> nat \<Rightarrow> nat \<Rightarrow> string" where
  "replaceScan ic re rep s [] copied next = drop copied s"
| "replaceScan ic re rep s (i # is) copied next =
     (if i < next then replaceScan ic re rep s is copied next
      else case rmatch ic s re (i, []) of
             [] \<Rightarrow> replaceScan ic re rep s is copied next
           | st # _ \<Rightarrow>
               take (i - copied) (drop copied s) @ rep @
               replaceScan ic re rep s is (fst st) (if fst st \<le> i then Suc i else fst st))"

definition replaceAll :: "bool \<Rightarrow> regex \<Rightarrow> string \<Rightarrow> string \<Rightarrow> string" where
  "replaceAll ic re rep s = replaceScan ic re rep s [0..<Suc (length s)] 0 0"

section \<open>Metadata extraction (src/utils/contentParser.ts)\<close>

subsection \<open>Numbers and errors\<close>

text \<open>The one exception this code could raise is the \<open>TypeError\<close> of a method call on
  \<open>undefined\<close>.\<close>

datatype error = TypeError

fun digitsValue :: "string \<Rightarrow> nat \<Rightarrow> nat" where
  "digitsValue [] acc = acc"
| "digitsValue (c # cs) acc = digitsValue cs (acc * 10 + (code c - 48))"

text \<open>\<open>parseInt(s, 10)\<close>: leading white space, an optional sign, then the longest run of
  digits; \<open>NaN\<close> when there is no digit.\<close>

definition parseInt :: "string \<Rightarrow> number" where
  "parseInt s =
     (let t = dropWhile isSpace s;
          neg = (t \<noteq> [] \<and> hd t = CHR ''-'');
          u = (if t \<noteq> [] \<and> (hd t = CHR ''-'' \<or> hd t = CHR ''+'') then tl t else t);
          ds = takeWhile isDigit u
      in if ds = [] then NaN
         else if neg then Num (- int (digitsValue ds 0)) else Num (int (digitsValue ds 0)))"

text \<open>\<open>parseInt(m[n], 10)\<close> on a capture: \<open>undefined\<close> reads as the text
  \<open>"undefined"\<close>, which has no digit.\<close>

definition parseIntGroup :: "string option \<Rightarrow> number" where
  "parseIntGroup g = (case g of None \<Rightarrow> NaN | Some t \<Rightarrow> parseInt t)"

fun showNat :: "nat \<Rightarrow> string" where
  "showNat n = (if n < 10 then [char_of (48 + n)] else showNat (n div 10) @ [char_of (48 + n mod 10)])"

declare showNat.simps [simp del]

text \<open>\<open>String(x)\<close> of a number.\<close>

definition numberToString :: "number \<Rightarrow> string" where
  "numberToString x =
     (case x of NaN \<Rightarrow> ''NaN''
      | Num i \<Rightarrow> if i < 0 then CHR ''-'' # showNat (nat (- i)) else showNat (nat i))"

subsection \<open>Pattern tables\<close>

fun seqs :: "regex list \<Rightarrow> regex" where
  "seqs [] = Lit []"
| "seqs [r] = r"
| "seqs (r # rs) = Seq r (seqs rs)"

fun alts :: "string list \<Rightarrow> regex" where
  "alts [] = NotAhead (Lit [])"
| "alts [a] = Lit a"
| "alts (a # as) = Alt (Lit a) (alts as)"

text \<open>\<open>/\b(A|B|C)\b/\<close>\<close>

definition wordOf :: "string list \<Rightarrow> regex" where
  "wordOf as = seqs [WordB, Grp 1 (alts as), WordB]"

text \<open>The keys of \<open>COUNTRIES\<close> (preferences.types.ts).\<close>

definition COUNTRIES :: "string list" where
  "COUNTRIES = [''FR'', ''BE'', ''CH'', ''CA'', ''US'', ''UK'', ''ES'', ''IT'', ''DE'', ''PT'', ''AR'',
     ''TR'', ''NL'', ''PL'', ''RO'', ''RU'', ''IN'', ''BR'', ''MX'', ''JP'', ''KR'', ''CN'']"

text \<open>\<open>COUNTRY_PATTERNS\<close>, in the order \<open>Object.entries\<close> lists them (insertion order);
  all are case-insensitive.\<close>

definition COUNTRY_PATTERNS :: "(string \<times> regex) list" where
  "COUNTRY_PATTERNS =
    [(''FR'', wordOf [''FR'', ''FRANCE'', ''FRENCH'']),
     (''BE'', wordOf [''BE'', ''BELGIUM'', ''BELGE'']),
     (''CH'', wordOf [''CH'', ''SUISSE'', ''SWISS'']),
     (''CA'', wordOf [''CA'', ''CANADA'', ''CANADIAN'']),
     (''US'', wordOf [''US'', ''USA'', ''AMERICAN'', ''ENGLISH'']),
     (''UK'', wordOf [''UK'', ''GB'', ''BRITISH'']),
     (''ES'', wordOf [''ES'', ''SPAIN'', ''SPANISH'', ''ESPANA'']),
     (''IT'', wordOf [''IT'', ''ITALY'', ''ITALIAN'', ''ITALIA'']),
     (''DE'', wordOf [''DE'', ''GERMANY'', ''GERMAN'', ''DEUTSCH'']),
     (''PT'', wordOf [''PT'', ''PORTUGAL'', ''PORTUGUESE'']),
     (''AR'', wordOf [''AR'', ''ARAB'', ''ARABIC'', ''ARABE'']),
     (''TR'', wordOf [''TR'', ''TURKEY'', ''TURKISH'', ''TURK'']),
     (''NL'', wordOf [''NL'', ''NETHERLANDS'', ''DUTCH'']),
     (''PL'', wordOf [''PL'', ''POLAND'', ''POLISH'']),
     (''RO'', wordOf [''RO'', ''ROMANIA'', ''ROMANIAN'']),
     (''RU'', wordOf [''RU'', ''RUSSIA'', ''RUSSIAN'']),
     (''IN'', wordOf [''IN'', ''INDIA'', ''INDIAN'', ''HINDI'']),
     (''BR'', wordOf [''BR'', ''BRAZIL'', ''BRAZILIAN'']),
     (''MX'', wordOf [''MX'', ''MEXICO'', ''MEXICAN'']),
     (''JP'', wordOf [''JP'', ''JAPAN'', ''JAPANESE'']),
     (''KR'', wordOf [''KR'', ''KOREA'', ''KOREAN'']),
     (''CN'', wordOf [''CN'', ''CHINA'', ''CHINESE''])]"

text \<open>\<open>QUALITY_PATTERNS\<close>; the \<open>HD\<close> pattern ends in the lookahead \<open>(?!\s*$)\<close>.\<close>

definition QUALITY_PATTERNS :: "(Quality \<times> regex) list" where
  "QUALITY_PATTERNS =
    [(Q4K, wordOf [''4K'', ''UHD'', ''2160p'']),
     (FHD, wordOf [''FHD'', ''1080p'', ''FULLHD'', ''FULL HD'']),
     (HD, seqs [WordB, Grp 1 (alts [''HD'', ''720p'']), WordB, NotAhead (Seq (Rep CSpace 0 None) Eol)]),
     (SD, wordOf [''SD'', ''480p'', ''LQ''])]"

definition LANGUAGE_PATTERNS :: "(string \<times> regex) list" where
  "LANGUAGE_PATTERNS =
    [(''MULTI'', wordOf [''MULTI'', ''MULTi'']),
     (''VFF'', wordOf [''VFF'', ''FRENCH'']),
     (''VF'', seqs [WordB, Lit ''VF'', WordB]),
     (''TRUEFRENCH'', wordOf [''TRUEFRENCH'', ''TRUE FRENCH'']),
     (''VOSTFR'', wordOf [''VOSTFR'', ''STFR'']),
     (''VO'', seqs [WordB, Lit ''VO'', WordB])]"

text \<open>\<open>/\(?(19|20)\d{2}\)?/\<close>\<close>

definition YEAR_PATTERN :: regex where
  "YEAR_PATTERN = seqs [Opt (Lit ''(''), Grp 1 (alts [''19'', ''20'']), Rep CDigit 2 (Some 2), Opt (Lit '')'')]"

text \<open>\<open>/S(\d{1,2})(?:E(\d{1,2}))?/i\<close>\<close>

definition SEASON_EPISODE_PATTERN :: regex where
  "SEASON_EPISODE_PATTERN =
     seqs [Lit ''S'', Grp 1 (Rep CDigit 1 (Some 2)), Opt (Seq (Lit ''E'') (Grp 2 (Rep CDigit 1 (Some 2))))]"

text \<open>\<open>/\bS(?:AISON|EASON)?\s*(\d{1,2})\b/i\<close>\<close>

definition SEASON_PATTERN :: regex where
  "SEASON_PATTERN =
     seqs [WordB, Lit ''S'', Opt (alts [''AISON'', ''EASON'']), Rep CSpace 0 None,
           Grp 1 (Rep CDigit 1 (Some 2)), WordB]"

text \<open>\<open>/^([A-Z]{2})\s*[:\-|]\s*/i\<close>\<close>

definition COUNTRY_PREFIX_PATTERN :: regex where
  "COUNTRY_PREFIX_PATTERN =
     seqs [Bol, Grp 1 (Rep (CRange CHR ''A'' CHR ''Z'') 2 (Some 2)), Rep CSpace 0 None,
           Cls (COneOf '':-|''), Rep CSpace 0 None]"

subsection \<open>\<open>parseContentMetadata\<close>, stage by stage\<close>

text \<open>
  Each stage takes the raw \<open>name\<close>, which every pattern is tested on, and the working
  copy \<open>cleanName\<close>, which the matched text is removed from, and returns the field with
  the new working copy.
\<close>

definition extractCountryPrefix :: "string \<Rightarrow> string \<Rightarrow> error + (string option \<times> string)" where
  "extractCountryPrefix name cleanName =
     (case regexExec True COUNTRY_PREFIX_PATTERN name of
        None \<Rightarrow> Inr (None, cleanName)
      | Some countryPrefixMatch \<Rightarrow>
          (case matchGroup countryPrefixMatch 1 of
             None \<Rightarrow> Inl TypeError
           | Some g \<Rightarrow>
               (let prefix = toUpperCase g in
                if prefix \<in> set COUNTRIES
                then Inr (Some prefix, trim (replaceString (matched name countryPrefixMatch) [] cleanName))
                else Inr (None, cleanName))))"

fun findCountry :: "(string \<times> regex) list \<Rightarrow> string \<Rightarrow> string option" where
  "findCountry [] name = None"
| "findCountry ((country, pattern) # rest) name =
     (if regexTest True pattern name then Some country else findCountry rest name)"

fun extractQuality :: "(Quality \<times> regex) list \<Rightarrow> string \<Rightarrow> string \<Rightarrow> Quality option \<times> string" where
  "extractQuality [] name cleanName = (None, cleanName)"
| "extractQuality ((q, pattern) # rest) name cleanName =
     (if regexTest True pattern name then (Some q, trim (replaceRegex True pattern [] cleanName))
      else extractQuality rest name cleanName)"

fun extractLanguage :: "(string \<times> regex) list \<Rightarrow> string \<Rightarrow> string \<Rightarrow> string option \<times> string" where
  "extractLanguage [] name cleanName = (None, cleanName)"
| "extractLanguage ((lang, pattern) # rest) name cleanName =
     (if regexTest True pattern name then (Some lang, trim (replaceRegex True pattern [] cleanName))
      else extractLanguage rest name cleanName)"

definition extractYear :: "string \<Rightarrow> string \<Rightarrow> number option \<times> string" where
  "extractYear name cleanName =
     (case regexExec False YEAR_PATTERN name of
        None \<Rightarrow> (None, cleanName)
      | Some yearMatch \<Rightarrow>
          (Some (parseInt (replaceAll False (Cls (COneOf ''()'')) [] (matched name yearMatch))),
           trim (replaceRegex False YEAR_PATTERN [] cleanName)))"

text \<open>The season, the episode and the new working copy.\<close>

definition extractSeasonEpisode :: "string \<Rightarrow> string \<Rightarrow> number option \<times> number option \<times> string" where
  "extractSeasonEpisode name cleanName =
     (case regexExec True SEASON_EPISODE_PATTERN name of
        Some seMatch \<Rightarrow>
          (Some (parseIntGroup (matchGroup seMatch 1)),
           (case matchGroup seMatch 2 of
              None \<Rightarrow> None
            | Some e \<Rightarrow> if e = [] then None else Some (parseInt e)),
           trim (replaceRegex True SEASON_EPISODE_PATTERN [] cleanName))
      | None \<Rightarrow>
          (case regexExec True SEASON_PATTERN name of
             Some sMatch \<Rightarrow>
               (Some (parseIntGroup (matchGroup sMatch 1)), None,
                trim (replaceRegex True SEASON_PATTERN [] cleanName))
           | None \<Rightarrow> (None, None, cleanName)))"

text \<open>The final cleaning: four replacements with the \<open>g\<close> flag, then \<open>trim\<close>.\<close>

definition finalClean :: "string \<Rightarrow> string" where
  "finalClean cleanName =
     trim
       (replaceAll False (seqs [Rep CSpace 0 None, Lit ''('', Rep CSpace 0 None, Lit '')'', Rep CSpace 0 None]) []
         (replaceAll False (Alt (Seq Bol (Rep CSpace 1 None)) (Seq (Rep CSpace 1 None) Eol)) []
           (replaceAll False (Rep CSpace 1 None) '' ''
             (replaceAll False (Rep (COneOf '':-|'') 1 None) '' '' cleanName))))"

text \<open>The fields and the working copy as they stand before the final cleaning.\<close>

type_synonym fields =
  "string option \<times> Quality option \<times> string option \<times> number option \<times> number option \<times> number option"

definition extractFields :: "string \<Rightarrow> error + (fields \<times> string)" where
  "extractFields name =
     (case extractCountryPrefix name name of
        Inl e \<Rightarrow> Inl e
      | Inr (prefixCountry, cleanName1) \<Rightarrow>
          (let country = (case prefixCountry of
                            None \<Rightarrow> findCountry COUNTRY_PATTERNS name
                          | Some c \<Rightarrow> if c = [] then findCountry COUNTRY_PATTERNS name else Some c);
               (quality, cleanName2) = extractQuality QUALITY_PATTERNS name cleanName1;
               (language, cleanName3) = extractLanguage LANGUAGE_PATTERNS name cleanName2;
               (year, cleanName4) = extractYear name cleanName3;
               (season, episode, cleanName5) = extractSeasonEpisode name cleanName4
           in Inr ((country, quality, language, year, season, episode), cleanName5)))"

definition parseContentMetadata :: "string \<Rightarrow> error + ContentMetadata" where
  "parseContentMetadata name =
     (case extractFields name of
        Inl e \<Rightarrow> Inl e
      | Inr ((country, quality, language, year, season, episode), cleanName5) \<Rightarrow>
          (let cleanName = finalClean cleanName5
           in Inr \<lparr>md_cleanName = (if cleanName = [] then name else cleanName),
                   md_country = country,
                   md_language = language,
                   md_quality = quality,
                   md_year = year,
                   md_season = season,
                   md_episode = episode\<rparr>))"

text \<open>\<open>x || 0\<close> inside a template string, for an optional number, and
  \<open>country || 'unknown'\<close>.\<close>

definition numberOrZero :: "number option \<Rightarrow> string" where
  "numberOrZero x =
     (case x of None \<Rightarrow> ''0'' | Some NaN \<Rightarrow> ''0''
      | Some (Num i) \<Rightarrow> if i = 0 then ''0'' else numberToString (Num i))"

definition countryOrUnknown :: "string option \<Rightarrow> string" where
  "countryOrUnknown c = (case c of None \<Rightarrow> ''unknown'' | Some t \<Rightarrow> if t = [] then ''unknown'' else t)"

definition getContentKey :: "string \<Rightarrow> ContentType \<Rightarrow> error + string" where
  "getContentKey name type =
     (case parseContentMetadata name of
        Inl e \<Rightarrow> Inl e
      | Inr meta \<Rightarrow>
          Inr (case type of
                 TChannel \<Rightarrow> toLowerCase (md_cleanName meta) @ ''_'' @ countryOrUnknown (md_country meta)
               | TSeries \<Rightarrow> toLowerCase (md_cleanName meta) @ ''_s'' @ numberOrZero (md_season meta)
               | TMovie \<Rightarrow> toLowerCase (md_cleanName meta) @ ''_'' @ numberOrZero (md_year meta)))"

section \<open>Deduplication (src/utils/deduplicator.ts)\<close>

text \<open>
  The \<open>Channel\<close> record of channel.types.ts, with the fields the playlist parser
  writes; the remaining optional fields (VOD and series details, enrichment) are neither
  read nor written by the functions modelled here.
\<close>

datatype StreamType = Live | Vod | Series

record Channel =
  ch_id :: string
  ch_name :: string
  ch_url :: string
  ch_logo :: "string option"
  ch_group :: "string option"
  ch_tvgId :: "string option"
  ch_tvgName :: "string option"
  ch_epgUrl :: "string option"
  ch_catchup :: "string option"
  ch_catchupDays :: "number option"
  ch_catchupSource :: "string option"
  ch_userAgent :: "string option"
  ch_referrer :: "string option"
  ch_isLive :: "bool option"
  ch_streamType :: "StreamType option"

text \<open>
  A \<open>Map\<close> with string keys: an association list in insertion order. \<open>set\<close> on a
  key that is present replaces its value in place, and on a new key appends an entry,
  which is the order in which a \<open>Map\<close> is iterated.
\<close>

type_synonym 'v jsmap = "(string \<times> 'v) list"

definition mapGet :: "'v jsmap \<Rightarrow> string \<Rightarrow> 'v option" where
  "mapGet m k = map_of m k"

fun mapSet :: "'v jsmap \<Rightarrow> string \<Rightarrow> 'v \<Rightarrow> 'v jsmap" where
  "mapSet [] k v = [(k, v)]"
| "mapSet ((k', v') # m) k v = (if k' = k then (k, v) # m else (k', v') # mapSet m k v)"

text \<open>The body of the grouping loops:
  \<open>existing = groups.get(key) || []; existing.push(x); groups.set(key, existing)\<close>.\<close>

definition addToGroup :: "Channel list jsmap \<Rightarrow> string \<Rightarrow> Channel \<Rightarrow> Channel list jsmap" where
  "addToGroup groups key x =
     (let existing = (case mapGet groups key of None \<Rightarrow> [] | Some g \<Rightarrow> g)
      in mapSet groups key (existing @ [x]))"

text \<open>The grouping loop of \<open>deduplicateChannels\<close>, which skips the records that are
  not live (\<open>if (!channel.isLive) continue\<close>).\<close>

fun groupChannels :: "Channel list \<Rightarrow> Channel list jsmap \<Rightarrow> error + Channel list jsmap" where
  "groupChannels [] groups = Inr groups"
| "groupChannels (channel # rest) groups =
     (if ch_isLive channel \<noteq> Some True then groupChannels rest groups
      else case getContentKey (ch_name channel) TChannel of
             Inl e \<Rightarrow> Inl e
           | Inr key \<Rightarrow> groupChannels rest (addToGroup groups key channel))"

text \<open>The grouping loop of \<open>deduplicateMovies\<close> and \<open>deduplicateSeries\<close>, over the
  records already filtered.\<close>

fun groupByKey :: "ContentType \<Rightarrow> Channel list \<Rightarrow> Channel list jsmap \<Rightarrow> error + Channel list jsmap" where
  "groupByKey type [] groups = Inr groups"
| "groupByKey type (x # rest) groups =
     (case getContentKey (ch_name x) type of
        Inl e \<Rightarrow> Inl e
      | Inr key \<Rightarrow> groupByKey type rest (addToGroup groups key x))"

text \<open>One variant per member of a group.\<close>

definition toVariant :: "Channel \<Rightarrow> error + ContentVariant" where
  "toVariant ch =
     (case parseContentMetadata (ch_name ch) of
        Inl e \<Rightarrow> Inl e
      | Inr meta \<Rightarrow>
          Inr \<lparr>cv_id = ch_id ch, cv_url = ch_url ch,
               cv_quality = md_quality meta, cv_language = md_language meta\<rparr>)"

fun mapE :: "('a \<Rightarrow> error + 'b) \<Rightarrow> 'a list \<Rightarrow> error + 'b list" where
  "mapE f [] = Inr []"
| "mapE f (x # xs) =
     (case f x of
        Inl e \<Rightarrow> Inl e
      | Inr y \<Rightarrow> (case mapE f xs of Inl e \<Rightarrow> Inl e | Inr ys \<Rightarrow> Inr (y # ys)))"

text \<open>The second loop: one \<open>DeduplicatedContent\<close> per entry of the map, in its order;
  an entry with an empty group is skipped (\<open>if (!first) continue\<close>).\<close>

fun buildContents :: "ContentType \<Rightarrow> Channel list jsmap \<Rightarrow> error + DeduplicatedContent list" where
  "buildContents type [] = Inr []"
| "buildContents type ((key, []) # rest) = buildContents type rest"
| "buildContents type ((key, first # others) # rest) =
     (case parseContentMetadata (ch_name first) of
        Inl e \<Rightarrow> Inl e
      | Inr metadata \<Rightarrow>
          (case mapE toVariant (first # others) of
             Inl e \<Rightarrow> Inl e
           | Inr variants \<Rightarrow>
               (case buildContents type rest of
                  Inl e \<Rightarrow> Inl e
                | Inr result \<Rightarrow>
                    Inr (\<lparr>dc_id = ch_id first, dc_name = md_cleanName metadata,
                          dc_logo = ch_logo first, dc_group = ch_group first,
                          dc_type = type, dc_metadata = metadata,
                          dc_variants = variants\<rparr> # result))))"

definition deduplicateChannels :: "Channel list \<Rightarrow> error + DeduplicatedContent list" where
  "deduplicateChannels channels =
     (case groupChannels channels [] of
        Inl e \<Rightarrow> Inl e
      | Inr groups \<Rightarrow> buildContents TChannel groups)"

text \<open>The filters of the other two functions:
  \<open>!ch.isLive && ch.streamType === 'vod'\<close> and
  \<open>!ch.isLive && ch.streamType === 'series'\<close>.\<close>

definition isMovie :: "Channel \<Rightarrow> bool" where
  "isMovie ch = (ch_isLive ch \<noteq> Some True \<and> ch_streamType ch = Some Vod)"

definition isSeries :: "Channel \<Rightarrow> bool" where
  "isSeries ch = (ch_isLive ch \<noteq> Some True \<and> ch_streamType ch = Some Series)"

definition isLiveRecord :: "Channel \<Rightarrow> bool" where
  "isLiveRecord ch = (ch_isLive ch = Some True)"

definition deduplicateMovies :: "Channel list \<Rightarrow> error + DeduplicatedContent list" where
  "deduplicateMovies channels =
     (let movies = filter isMovie channels
      in case groupByKey TMovie movies [] of
           Inl e \<Rightarrow> Inl e
         | Inr groups \<Rightarrow> buildContents TMovie groups)"

definition deduplicateSeries :: "Channel list \<Rightarrow> error + DeduplicatedContent list" where
  "deduplicateSeries channels =
     (let series = filter isSeries channels
      in case groupByKey TSeries series [] of
           Inl e \<Rightarrow> Inl e
         | Inr groups \<Rightarrow> buildContents TSeries groups)"

text \<open>The three functions as one, with the filter each applies.\<close>

definition matchesType :: "ContentType \<Rightarrow> Channel \<Rightarrow> bool" where
  "matchesType type x = (case type of TChannel \<Rightarrow> isLiveRecord x | TMovie \<Rightarrow> isMovie x | TSeries \<Rightarrow> isSeries x)"

definition deduplicate :: "ContentType \<Rightarrow> Channel list \<Rightarrow> error + DeduplicatedContent list" where
  "deduplicate type channels =
     (case type of TChannel \<Rightarrow> deduplicateChannels channels
      | TMovie \<Rightarrow> deduplicateMovies channels
      | TSeries \<Rightarrow> deduplicateSeries channels)"

definition sampleRecord :: "string \<Rightarrow> string \<Rightarrow> bool \<Rightarrow> StreamType \<Rightarrow> Channel" where
  "sampleRecord i n live t =
     \<lparr>ch_id = i, ch_name = n, ch_url = ''http://host/'' @ i, ch_logo = None, ch_group = None,
      ch_tvgId = None, ch_tvgName = None, ch_epgUrl = None, ch_catchup = None,
      ch_catchupDays = None, ch_catchupSource = None, ch_userAgent = None, ch_referrer = None,
      ch_isLive = Some live, ch_streamType = Some t\<rparr>"

section \<open>Playlist ingestion (src/parsers/m3uParser.ts)\<close>

subsection \<open>String helpers\<close>

definition startsWith :: "string \<Rightarrow> string \<Rightarrow> bool" where
  "startsWith s p = (take (length p) s = p)"

definition endsWith :: "string \<Rightarrow> string \<Rightarrow> bool" where
  "endsWith s p = (length p \<le> length s \<and> drop (length s - length p) s = p)"





subsection \<open>Patterns\<close>




subsection \<open>The functions\<close>














subsection \<open>\<open>parseM3U\<close>\<close>


definition isUrlLine :: "string \<Rightarrow> bool" where
  "isUrlLine line = (startsWith line ''http'' \<or> startsWith line ''rtmp'' \<or> startsWith line ''rtsp'')"











section \<open>Decoding of EPG texts (getShortEpg, src/parsers/xtreamApi.ts)\<close>

text \<open>
  A title or description arrives as a string of code units below 256 here; the decoded
  text can hold any code point, so the result is a list of UTF-16 code units.
\<close>

type_synonym jsstring = "nat list"

text \<open>\<open>/^[A-Za-z0-9+/=]+$/\<close> and \<open>/[\x00-\x08\x0E-\x1F]/\<close>\<close>

definition BASE64_CLASS :: cclass where
  "BASE64_CLASS =
     CUnion (CRange CHR ''A'' CHR ''Z'')
       (CUnion (CRange CHR ''a'' CHR ''z'') (CUnion (CRange CHR ''0'' CHR ''9'') (COneOf ''+/='')))"

definition BASE64_PATTERN :: regex where
  "BASE64_PATTERN = seqs [Bol, Rep BASE64_CLASS 1 None, Eol]"

definition CONTROL_CLASS :: cclass where
  "CONTROL_CLASS = CUnion (CRange (char_of (0 :: nat)) (char_of (8 :: nat)))
                          (CRange (char_of (14 :: nat)) (char_of (31 :: nat)))"

definition CONTROL_PATTERN :: regex where
  "CONTROL_PATTERN = Cls CONTROL_CLASS"

subsection \<open>\<open>atob\<close>\<close>

text \<open>
  The forgiving base64 decoding of the HTML standard: ASCII white space is removed; one
  or two \<open>=\<close> at the end are removed when the length is a multiple of 4; a length of
  1 modulo 4 or a character outside the alphabet (now without \<open>=\<close>) is a failure,
  \<open>None\<close> for the exception thrown; each character gives 6 bits, and the 4 or 2 bits
  left over at the end are dropped. The result is a string of bytes.
\<close>

definition isAsciiWhitespace :: "char \<Rightarrow> bool" where
  "isAsciiWhitespace c = (code c \<in> set [9, 10, 12, 13, 32])"

definition base64Value :: "char \<Rightarrow> nat option" where
  "base64Value c =
     (let n = code c in
      if 65 \<le> n \<and> n \<le> 90 then Some (n - 65)
      else if 97 \<le> n \<and> n \<le> 122 then Some (n - 71)
      else if 48 \<le> n \<and> n \<le> 57 then Some (n + 4)
      else if n = 43 then Some 62
      else if n = 47 then Some 63
      else None)"

fun sextets :: "string \<Rightarrow> nat list option" where
  "sextets [] = Some []"
| "sextets (c # cs) =
     (case base64Value c of
        None \<Rightarrow> None
      | Some v \<Rightarrow> (case sextets cs of None \<Rightarrow> None | Some vs \<Rightarrow> Some (v # vs)))"

fun decodeSextets :: "nat list \<Rightarrow> string" where
  "decodeSextets (a # b # c # d # rest) =
     [char_of (a * 4 + b div 16), char_of ((b mod 16) * 16 + c div 4), char_of ((c mod 4) * 64 + d)]
     @ decodeSextets rest"
| "decodeSextets [a, b, c] = [char_of (a * 4 + b div 16), char_of ((b mod 16) * 16 + c div 4)]"
| "decodeSextets [a, b] = [char_of (a * 4 + b div 16)]"
| "decodeSextets [a] = []"
| "decodeSextets [] = []"

definition stripPadding :: "string \<Rightarrow> string" where
  "stripPadding d =
     (if length d mod 4 = 0
      then (if endsWith d ''=='' then take (length d - 2) d
            else if endsWith d ''='' then take (length d - 1) d
            else d)
      else d)"

definition atob :: "string \<Rightarrow> string option" where
  "atob s =
     (let d = stripPadding (filter (\<lambda>c. \<not> isAsciiWhitespace c) s) in
      if length d mod 4 = 1 then None
      else case sextets d of None \<Rightarrow> None | Some vs \<Rightarrow> Some (decodeSextets vs))"

subsection \<open>\<open>escape\<close> and \<open>decodeURIComponent\<close>\<close>

definition hexDigit :: "nat \<Rightarrow> char" where
  "hexDigit d = (if d < 10 then char_of (48 + d) else char_of (55 + d))"

text \<open>\<open>escape\<close> keeps \<open>A-Z a-z 0-9 @ * _ + - . /\<close> and writes any other code unit
  below 256 as \<open>%XX\<close>.\<close>

definition escapeChar :: "char \<Rightarrow> string" where
  "escapeChar c =
     (let n = code c in
      if (65 \<le> n \<and> n \<le> 90) \<or> (97 \<le> n \<and> n \<le> 122) \<or> (48 \<le> n \<and> n \<le> 57)
         \<or> c \<in> set ''@*_+-./''
      then [c]
      else [CHR ''%'', hexDigit (n div 16), hexDigit (n mod 16)])"

definition escape :: "string \<Rightarrow> string" where
  "escape s = concat (map escapeChar s)"

definition hexValue :: "char \<Rightarrow> nat option" where
  "hexValue c =
     (let n = code c in
      if 48 \<le> n \<and> n \<le> 57 then Some (n - 48)
      else if 65 \<le> n \<and> n \<le> 70 then Some (n - 55)
      else if 97 \<le> n \<and> n \<le> 102 then Some (n - 87)
      else None)"

text \<open>The octet written \<open>%XX\<close> at the head of the input, and the input after it.\<close>

fun readOctet :: "string \<Rightarrow> (nat \<times> string) option" where
  "readOctet (p # h # l # rest) =
     (if p = CHR ''%'' then
        (case hexValue h of
           None \<Rightarrow> None
         | Some a \<Rightarrow> (case hexValue l of None \<Rightarrow> None | Some b \<Rightarrow> Some (a * 16 + b, rest)))
      else None)"
| "readOctet s = None"

text \<open>The \<open>n\<close> continuation octets \<open>10xxxxxx\<close> after a leading octet, folded into the
  value \<open>v\<close>.\<close>

fun readContinuation :: "nat \<Rightarrow> nat \<Rightarrow> string \<Rightarrow> (nat \<times> string) option" where
  "readContinuation 0 v s = Some (v, s)"
| "readContinuation (Suc n) v s =
     (case readOctet s of
        None \<Rightarrow> None
      | Some (b, rest) \<Rightarrow>
          if 128 \<le> b \<and> b < 192 then readContinuation n (v * 64 + (b - 128)) rest else None)"

text \<open>The UTF-16 code units of a code point.\<close>

definition utf16 :: "nat \<Rightarrow> jsstring" where
  "utf16 v = (if v < 65536 then [v]
              else [55296 + (v - 65536) div 1024, 56320 + (v - 65536) mod 1024])"

lemma readOctet_shorter: "readOctet s = Some (b, rest) \<Longrightarrow> length rest < length s"
  by (induction s rule: readOctet.induct) (auto split: if_splits option.splits)

lemma readContinuation_shorter:
  "readContinuation n v s = Some (w, rest) \<Longrightarrow> length rest \<le> length s"
proof (induction n arbitrary: v s)
  case 0
  then show ?case by simp
next
  case (Suc n)
  from Suc.prems obtain b mid where o: "readOctet s = Some (b, mid)"
    and r: "readContinuation n (v * 64 + (b - 128)) mid = Some (w, rest)"
    by (auto split: option.splits if_splits)
  from Suc.IH [OF r] readOctet_shorter [OF o] show ?case by simp
qed

text \<open>
  \<open>decodeURIComponent\<close>: a character other than \<open>%\<close> stands for itself; \<open>%XX\<close>
  below 128 is that character; a leading octet announces 2, 3 or 4 octets, which must be
  the UTF-8 encoding of a code point (shortest form, no surrogate, at most 10FFFF).
  Anything else is a \<open>URIError\<close>, \<open>None\<close> here.
\<close>

function decodeURIComponent :: "string \<Rightarrow> jsstring option" where
  "decodeURIComponent [] = Some []"
| "decodeURIComponent (c # cs) =
     (if c \<noteq> CHR ''%'' then map_option ((#) (code c)) (decodeURIComponent cs)
      else case readOctet (c # cs) of
        None \<Rightarrow> None
      | Some (b, rest) \<Rightarrow>
          if b < 128 then map_option ((#) b) (decodeURIComponent rest)
          else if b < 192 \<or> 248 \<le> b then None
          else
            (case readContinuation (if b < 224 then 1 else if b < 240 then 2 else 3)
                    (if b < 224 then b - 192 else if b < 240 then b - 224 else b - 240) rest of
               None \<Rightarrow> None
             | Some (v, rest') \<Rightarrow>
                 if v < (if b < 224 then 128 else if b < 240 then 2048 else 65536)
                    \<or> 1114111 < v \<or> (55296 \<le> v \<and> v \<le> 57343)
                 then None
                 else map_option ((@) (utf16 v)) (decodeURIComponent rest')))"
  by pat_completeness auto
termination
proof (relation "measure length")
  show "wf (measure length)" by simp
next
  fix c :: char and cs :: string
  show "(cs, c # cs) \<in> measure length" by simp
next
  fix c :: char and cs :: string and x2 :: "nat \<times> string" and b rest
  assume "readOctet (c # cs) = Some x2" and "(b, rest) = x2"
  then have "readOctet (c # cs) = Some (b, rest)" by simp
  from readOctet_shorter [OF this] show "(rest, c # cs) \<in> measure length" by simp
next
  fix c :: char and cs :: string and x2 :: "nat \<times> string" and b rest
    and x2a :: "nat \<times> string" and v rest'
  assume "readOctet (c # cs) = Some x2" and "(b, rest) = x2"
    and "readContinuation (if b < 224 then 1 else if b < 240 then 2 else 3)
          (if b < 224 then b - 192 else if b < 240 then b - 224 else b - 240) rest = Some x2a"
    and "(v, rest') = x2a"
  then have o: "readOctet (c # cs) = Some (b, rest)"
    and r: "readContinuation (if b < 224 then 1 else if b < 240 then 2 else 3)
          (if b < 224 then b - 192 else if b < 240 then b - 224 else b - 240) rest = Some (v, rest')"
    by simp_all
  from readOctet_shorter [OF o] readContinuation_shorter [OF r]
  show "(rest', c # cs) \<in> measure length" by simp
qed

subsection \<open>The decoding step of \<open>getShortEpg\<close>\<close>

text \<open>
  \<open>let title = listing.title || ''\<close>, then inside \<open>try\<close>/\<open>catch\<close>: when the text
  is not empty, matches the base64 pattern and is longer than 4, it is decoded with
  \<open>atob\<close>, and when the decoding matches no control pattern the title becomes
  \<open>decodeURIComponent(escape(decoded))\<close>. An exception of \<open>atob\<close> or of
  \<open>decodeURIComponent\<close> is caught and the title stays as it was. The same code runs on
  the description.
\<close>

definition decodeEpgText :: "string \<Rightarrow> jsstring" where
  "decodeEpgText title =
     (if title \<noteq> [] \<and> regexTest False BASE64_PATTERN title \<and> 4 < length title
      then (case atob title of
              None \<Rightarrow> map code title
            | Some decoded \<Rightarrow>
                if \<not> regexTest False CONTROL_PATTERN decoded
                then (case decodeURIComponent (escape decoded) of
                        None \<Rightarrow> map code title
                      | Some text \<Rightarrow> text)
                else map code title)
      else map code title)"

text \<open>The specification's reading, for comparison: a control character is a character
  of the general category Cc, one of 0 to 31 and 127 to 159.\<close>

definition spec_isControl :: "char \<Rightarrow> bool" where
  "spec_isControl c = (code c < 32 \<or> (127 \<le> code c \<and> code c \<le> 159))"

text \<open>What the two patterns test, character by character.\<close>

definition isBase64Char :: "char \<Rightarrow> bool" where
  "isBase64Char c =
     ((65 \<le> code c \<and> code c \<le> 90) \<or> (97 \<le> code c \<and> code c \<le> 122)
      \<or> (48 \<le> code c \<and> code c \<le> 57) \<or> c \<in> set ''+/='')"

definition isFilteredControl :: "char \<Rightarrow> bool" where
  "isFilteredControl c = (code c \<le> 8 \<or> (14 \<le> code c \<and> code c \<le> 31))"

section \<open>Properties of variant selection\<close>

lemma find_Some_mem: "find P xs = Some x \<Longrightarrow> x \<in> set xs \<and> P x"
  by (induction xs) (auto split: if_splits)

lemma set_sortedIndices:
  "set (sortedIndices vs) = set (zip [0..<length vs] (map cv_quality vs))"
  by (simp add: sortedIndices_def entries_def)

lemma mem_sortedIndices:
  "e \<in> set (sortedIndices vs) \<Longrightarrow> fst e < length vs \<and> snd e = cv_quality (vs ! fst e)"
  by (cases e) (auto simp: set_sortedIndices set_zip)

lemma sortedIndices_Nil: "sortedIndices vs = [] \<longleftrightarrow> vs = []"
proof -
  have "length (sortedIndices vs) = length vs"
    by (simp add: sortedIndices_def entries_def)
  then show ?thesis by (metis length_0_conv)
qed

lemma selectBestQuality_range:
  assumes "vs \<noteq> []"
  shows "selectBestQuality vs p < length vs"
proof (cases "find (\<lambda>e. qualityIdx (snd e) \<ge> indexOf qualityOrder p) (sortedIndices vs)")
  case None
  from assms obtain e es where s: "sortedIndices vs = e # es"
    by (cases "sortedIndices vs") (auto simp: sortedIndices_Nil)
  then have "e \<in> set (sortedIndices vs)" by simp
  then have "fst e < length vs" by (simp add: mem_sortedIndices)
  with None s show ?thesis by (simp add: selectBestQuality_def)
next
  case (Some e)
  then have "e \<in> set (sortedIndices vs)" by (simp add: find_Some_mem)
  then have "fst e < length vs" by (simp add: mem_sortedIndices)
  with Some show ?thesis by (simp add: selectBestQuality_def)
qed

lemma indexOf_qualityOrder:
  "indexOf qualityOrder Q4K = 0" "indexOf qualityOrder FHD = 1" "indexOf qualityOrder HD = 2"
  "indexOf qualityOrder SD = 3" "indexOf qualityOrder Auto = -1"
  by (simp_all add: qualityOrder_def)

lemma entries_nth: "j < length vs \<Longrightarrow> entries vs ! j = (j, cv_quality (vs ! j))"
  by (simp add: entries_def)

lemma length_entries: "length (entries vs) = length vs"
  by (simp add: entries_def)

lemma sortedIndices_entries: "sortedIndices vs = sort_key (\<lambda>e. qualityIdx (snd e)) (entries vs)"
  by (simp add: sortedIndices_def entries_def)

lemma head_of_filter_first:
  assumes "filter (\<lambda>y. qualityIdx (snd y) = c) (entries vs) = e # rest"
  shows "fst e < length vs" and "snd e = cv_quality (vs ! fst e)"
    and "\<forall>j<fst e. qualityIdx (cv_quality (vs ! j)) \<noteq> c"
proof -
  define P where "P = (\<lambda>y :: nat \<times> Quality option. qualityIdx (snd y) = c)"
  note assms = assms [folded P_def]
  from assms obtain us ws where xs: "entries vs = us @ e # ws" and no: "\<forall>u\<in>set us. \<not> P u"
    by (auto simp: filter_eq_Cons_iff)
  have "length (entries vs) = length us + Suc (length ws)"
    by (simp add: xs)
  then have len: "length us < length vs"
    by (simp add: length_entries)
  have "entries vs ! length us = e" using xs by simp
  then have e: "e = (length us, cv_quality (vs ! length us))"
    using len by (simp add: entries_nth)
  have "\<not> P (j, cv_quality (vs ! j))" if "j < length us" for j
  proof -
    have "entries vs ! j = us ! j" using xs that by (simp add: nth_append)
    moreover have "entries vs ! j = (j, cv_quality (vs ! j))"
      using that len by (simp add: entries_nth)
    ultimately show ?thesis using no that by (metis nth_mem)
  qed
  then have "\<forall>j<length us. qualityIdx (cv_quality (vs ! j)) \<noteq> c"
    by (simp add: P_def)
  with e len show "fst e < length vs" and "snd e = cv_quality (vs ! fst e)"
    and "\<forall>j<fst e. qualityIdx (cv_quality (vs ! j)) \<noteq> c" by simp_all
qed

lemma sorted_split_filter:
  assumes "sorted (map f (pre @ e # post))" and "\<forall>y\<in>set pre. f y < f e"
  shows "filter (\<lambda>y. f y = f e) (pre @ e # post) = e # filter (\<lambda>y. f y = f e) post"
proof -
  have "filter (\<lambda>y. f y = f e) pre = []"
    using assms(2) by (auto simp: filter_empty_conv)
  then show ?thesis by simp
qed

lemma sorted_split_min:
  assumes "sorted (map f (pre @ e # post))" and "y \<in> set post"
  shows "f e \<le> (f y :: int)"
  using assms by (auto simp: sorted_append)

lemma selectBestQuality_first_of_rank:
  fixes vs :: "ContentVariant list" and p :: Quality
  assumes "vs \<noteq> []"
  defines "i \<equiv> selectBestQuality vs p"
  defines "k \<equiv> \<lambda>j. qualityIdx (cv_quality (vs ! j))"
  defines "pidx \<equiv> indexOf qualityOrder p"
  shows "i < length vs"
    and "\<forall>j<i. k j \<noteq> k i"
    and "(\<exists>j<length vs. pidx \<le> k j) \<Longrightarrow> pidx \<le> k i \<and> (\<forall>j<length vs. pidx \<le> k j \<longrightarrow> k i \<le> k j)"
    and "\<not> (\<exists>j<length vs. pidx \<le> k j) \<Longrightarrow> (\<forall>j<length vs. k i \<le> k j)"
proof -
  let ?f = "\<lambda>e. qualityIdx (snd e)"
  let ?S = "sortedIndices vs"
  have sorted: "sorted (map ?f ?S)" by (simp add: sortedIndices_entries)
  have stable: "filter (\<lambda>y. ?f y = c) ?S = filter (\<lambda>y. ?f y = c) (entries vs)" for c
    by (simp add: sortedIndices_entries sort_key_stable)
  have setS: "set ?S = set (entries vs)" by (simp add: sortedIndices_entries)
  have memS: "(j, cv_quality (vs ! j)) \<in> set ?S" if "j < length vs" for j
    using that entries_nth [of j vs] length_entries [of vs] setS by (metis nth_mem)
  \<comment> \<open>in both cases the chosen entry splits the sorted list\<close>
  have "\<exists>pre e post. ?S = pre @ e # post \<and> i = fst e \<and> (\<forall>y\<in>set pre. ?f y < ?f e)
          \<and> (\<forall>y\<in>set pre. ?f y < pidx) \<and> (pidx \<le> ?f e \<or> (pre = [] \<and> (\<forall>y\<in>set ?S. ?f y < pidx)))"
  proof (cases "find (\<lambda>e. ?f e \<ge> pidx) ?S")
    case None
    from assms(1) obtain e es where s: "?S = e # es"
      by (cases ?S) (auto simp: sortedIndices_Nil)
    have "i = fst e" using None s by (simp add: i_def selectBestQuality_def pidx_def)
    moreover have "\<forall>y\<in>set ?S. ?f y < pidx" using None by (auto simp: find_None_iff not_le)
    ultimately show ?thesis using s by (intro exI [of _ "[]"] exI [of _ e] exI [of _ es]) simp
  next
    case (Some e)
    then obtain n where n: "n < length ?S" "pidx \<le> ?f (?S ! n)" "e = ?S ! n"
        "\<forall>j<n. \<not> pidx \<le> ?f (?S ! j)"
      by (auto simp: find_Some_iff)
    define pre where "pre = take n ?S"
    define post where "post = drop (Suc n) ?S"
    have split: "?S = pre @ e # post"
      unfolding pre_def post_def using n(1,3) by (simp add: id_take_nth_drop)
    have pre: "?f y < pidx" if "y \<in> set pre" for y
    proof -
      from that obtain j where "j < n" "y = ?S ! j"
        unfolding pre_def using n(1) by (auto simp: in_set_conv_nth)
      with n(4) show "?f y < pidx" by auto
    qed
    have ie: "i = fst e" using Some by (simp add: i_def selectBestQuality_def pidx_def)
    have pe: "pidx \<le> ?f e" using n(2,3) by simp
    have "\<forall>y\<in>set pre. ?f y < ?f e" using pre pe by fastforce
    moreover have "\<forall>y\<in>set pre. ?f y < pidx" using pre by blast
    ultimately show ?thesis using split ie pe by blast
  qed
  then obtain pre e post where S: "?S = pre @ e # post" and ie: "i = fst e"
    and lt: "\<forall>y\<in>set pre. ?f y < ?f e" and ltp: "\<forall>y\<in>set pre. ?f y < pidx"
    and alt: "pidx \<le> ?f e \<or> (pre = [] \<and> (\<forall>y\<in>set ?S. ?f y < pidx))"
    by blast
  have "filter (\<lambda>y. ?f y = ?f e) ?S = e # filter (\<lambda>y. ?f y = ?f e) post"
    using sorted lt unfolding S by (rule sorted_split_filter)
  then have "filter (\<lambda>y. ?f y = ?f e) (entries vs) = e # filter (\<lambda>y. ?f y = ?f e) post"
    by (simp add: stable)
  note e = head_of_filter_first [OF this]
  have ki: "k i = ?f e" using e(2) ie by (simp add: k_def)
  show "i < length vs" using e(1) ie by simp
  show "\<forall>j<i. k j \<noteq> k i" using e(3) ie ki by (simp add: k_def)
  have post: "?f e \<le> ?f y" if "y \<in> set post" for y
    using sorted that unfolding S by (rule sorted_split_min)
  have cases: "y \<in> set pre \<or> y = e \<or> y \<in> set post" if "y \<in> set ?S" for y
    using that unfolding S by auto
  show "pidx \<le> k i \<and> (\<forall>j<length vs. pidx \<le> k j \<longrightarrow> k i \<le> k j)"
    if ex: "\<exists>j<length vs. pidx \<le> k j"
  proof -
    from ex obtain j0 where "j0 < length vs" "pidx \<le> k j0" by blast
    with memS [of j0] have "\<not> (\<forall>y\<in>set ?S. ?f y < pidx)" by (force simp: k_def)
    with alt have pe: "pidx \<le> ?f e" by blast
    have "k i \<le> k j" if "j < length vs" "pidx \<le> k j" for j
    proof -
      let ?y = "(j, cv_quality (vs ! j))"
      have "?y \<in> set ?S" using that(1) by (rule memS)
      from cases [OF this] show ?thesis
        using ltp that(2) post [of ?y] ki by (auto simp: k_def)
    qed
    with pe ki show ?thesis by simp
  qed
  show "\<forall>j<length vs. k i \<le> k j" if none: "\<not> (\<exists>j<length vs. pidx \<le> k j)"
  proof (intro allI impI)
    fix j assume j: "j < length vs"
    let ?y = "(j, cv_quality (vs ! j))"
    have yS: "?y \<in> set ?S" using j by (rule memS)
    have "\<not> pidx \<le> ?f e" using none e(1) ki ie by auto
    with alt have "pre = []" by blast
    from cases [OF yS] show "k i \<le> k j"
      using \<open>pre = []\<close> post [of ?y] ki by (auto simp: k_def)
  qed
qed

text \<open>
  C10. For every content whose variants list is non-empty and every preferences value,
  \<open>selectBestVariant\<close> returns an element of the variants list (never \<open>undefined\<close>),
  and \<open>selectBestQuality\<close> returns an index below \<open>variants.length\<close> for every
  preferred quality.
\<close>

theorem selectBestVariant_returns_variant:
  assumes "dc_variants content \<noteq> []"
  shows "(\<exists>v. selectBestVariant content preferences = Some v \<and> v \<in> set (dc_variants content))
         \<and> selectBestQuality (dc_variants content) q < length (dc_variants content)"
proof -
  let ?vs = "dc_variants content"
  have first: "at_index ?vs 0 = Some (?vs ! 0)" "?vs ! 0 \<in> set ?vs"
    using assms by (simp_all add: at_index_def)
  have vof: "\<exists>v. variantOrFirst ?vs i = Some v \<and> v \<in> set ?vs" for i
    using first by (auto simp: variantOrFirst_def at_index_def)
  have lang: "find P ?vs = Some v \<Longrightarrow> v \<in> set ?vs" for P v
    by (simp add: find_Some_mem)
  have "\<exists>v. selectBestVariant content preferences = Some v \<and> v \<in> set ?vs"
    unfolding selectBestVariant_def Let_def
    using first vof lang by (auto split: ContentType.splits option.splits)
  moreover have "selectBestQuality ?vs q < length ?vs"
    using assms by (rule selectBestQuality_range)
  ultimately show ?thesis by simp
qed

theorem selectBestVariant_returns_variant_witness:
  "dc_variants (sampleChannel [mkVariant ''a'' (Some HD), mkVariant ''b'' None]) \<noteq> []
   \<and> (\<exists>v. selectBestVariant (sampleChannel [mkVariant ''a'' (Some HD), mkVariant ''b'' None])
              (samplePreferences SD) = Some v
         \<and> v \<in> set (dc_variants (sampleChannel [mkVariant ''a'' (Some HD), mkVariant ''b'' None])))
   \<and> selectBestQuality (dc_variants (sampleChannel [mkVariant ''a'' (Some HD), mkVariant ''b'' None])) SD
       < length (dc_variants (sampleChannel [mkVariant ''a'' (Some HD), mkVariant ''b'' None]))"
proof -
  have ne: "dc_variants (sampleChannel [mkVariant ''a'' (Some HD), mkVariant ''b'' None]) \<noteq> []"
    by (simp add: sampleChannel_def)
  from selectBestVariant_returns_variant [OF ne, of "samplePreferences SD" SD] ne
  show ?thesis by blast
qed

lemma selectBestVariant_channel:
  assumes "dc_type content = TChannel" and "2 \<le> length (dc_variants content)"
  shows "selectBestVariant content preferences =
         Some (dc_variants content !
               selectBestQuality (dc_variants content) (cp_defaultQuality (up_channels preferences)))"
proof -
  let ?vs = "dc_variants content"
  have "?vs \<noteq> []" using assms(2) by auto
  then have "selectBestQuality ?vs q < length ?vs" for q
    by (rule selectBestQuality_range)
  then show ?thesis
    using assms by (simp add: selectBestVariant_def variantOrFirst_def at_index_def Let_def)
qed

text \<open>
  C4. For a channel whose variants' detected quality tiers are exactly \<open>{HD, SD}\<close> and
  a user whose preferred quality is \<open>FHD\<close>, \<open>selectBestVariant\<close> returns an \<open>HD\<close>
  variant.
\<close>

theorem selectBestVariant_fallback_HD:
  assumes "dc_type content = TChannel"
    and "set (map cv_quality (dc_variants content)) = {Some HD, Some SD}"
    and "cp_defaultQuality (up_channels preferences) = FHD"
  shows "\<exists>v. selectBestVariant content preferences = Some v \<and> v \<in> set (dc_variants content)
             \<and> cv_quality v = Some HD"
proof -
  let ?vs = "dc_variants content"
  let ?k = "\<lambda>j. qualityIdx (cv_quality (?vs ! j))"
  let ?i = "selectBestQuality ?vs FHD"
  have qs: "cv_quality v = Some HD \<or> cv_quality v = Some SD" if "v \<in> set ?vs" for v
    using that assms(2) by auto
  obtain a b where a: "a \<in> set ?vs" "cv_quality a = Some HD" and b: "b \<in> set ?vs" "cv_quality b = Some SD"
    using assms(2) by (metis (no_types, lifting) imageE insertI1 insert_commute list.set_map)
  have "a \<noteq> b" using a b by auto
  have ne: "?vs \<noteq> []" using a by auto
  have len: "2 \<le> length ?vs"
  proof (cases ?vs)
    case Nil with ne show ?thesis by simp
  next
    case (Cons x xs)
    with a b \<open>a \<noteq> b\<close> have "xs \<noteq> []" by auto
    with Cons show ?thesis by (cases xs) simp_all
  qed
  obtain ja where ja: "ja < length ?vs" "?vs ! ja = a"
    using a(1) by (auto simp: in_set_conv_nth)
  have kja: "?k ja = 2" using ja a(2) by (simp add: qualityIdx_def indexOf_qualityOrder)
  have range: "?i < length ?vs" using ne by (rule selectBestQuality_first_of_rank)
  have ex: "\<exists>j<length ?vs. indexOf qualityOrder FHD \<le> ?k j"
    using ja kja by (auto simp: indexOf_qualityOrder)
  from selectBestQuality_first_of_rank(3) [OF ne ex]
  have "?k ?i \<le> ?k ja" using ja(1) kja by (auto simp: indexOf_qualityOrder)
  then have le: "?k ?i \<le> 2" using kja by simp
  have "?vs ! ?i \<in> set ?vs" using range by simp
  from qs [OF this] le have "cv_quality (?vs ! ?i) = Some HD"
    by (auto simp: qualityIdx_def indexOf_qualityOrder)
  moreover have "selectBestVariant content preferences = Some (?vs ! ?i)"
    using selectBestVariant_channel [OF assms(1) len] assms(3) by simp
  ultimately show ?thesis using \<open>?vs ! ?i \<in> set ?vs\<close> by blast
qed

theorem selectBestVariant_fallback_HD_witness:
  "dc_type (sampleChannel [mkVariant ''sd'' (Some SD), mkVariant ''hd'' (Some HD)]) = TChannel
   \<and> set (map cv_quality (dc_variants (sampleChannel [mkVariant ''sd'' (Some SD), mkVariant ''hd'' (Some HD)])))
       = {Some HD, Some SD}
   \<and> cp_defaultQuality (up_channels (samplePreferences FHD)) = FHD
   \<and> selectBestVariant (sampleChannel [mkVariant ''sd'' (Some SD), mkVariant ''hd'' (Some HD)])
        (samplePreferences FHD) = Some (mkVariant ''hd'' (Some HD))"
proof -
  let ?c = "sampleChannel [mkVariant ''sd'' (Some SD), mkVariant ''hd'' (Some HD)]"
  have h1: "dc_type ?c = TChannel" by (simp add: sampleChannel_def)
  have h2: "set (map cv_quality (dc_variants ?c)) = {Some HD, Some SD}"
    by (auto simp: sampleChannel_def mkVariant_def)
  have h3: "cp_defaultQuality (up_channels (samplePreferences FHD)) = FHD"
    by (simp add: samplePreferences_def)
  from selectBestVariant_fallback_HD [OF h1 h2 h3]
  obtain v where v: "selectBestVariant ?c (samplePreferences FHD) = Some v"
    "v \<in> set (dc_variants ?c)" "cv_quality v = Some HD" by blast
  from v(2,3) have "v = mkVariant ''hd'' (Some HD)"
    by (auto simp: sampleChannel_def mkVariant_def)
  with v(1) h1 h2 h3 show ?thesis by simp
qed

text \<open>
  C1, as the code has it. For a channel with two or more variants, \<open>selectBestVariant\<close>
  ranks the variants by the position of their tier in \<open>4K, FHD, HD, SD\<close> (a variant
  with no detected quality ranks after all of these, at 999) and returns the first variant,
  in encounter order, of the best tier that is at or below the preferred tier; when every
  variant is above the preferred tier it returns the first variant of the best tier
  there is.
\<close>

theorem selectBestVariant_channel_at_or_below:
  fixes content :: DeduplicatedContent and preferences :: UserPreferences
  defines "vs \<equiv> dc_variants content"
  defines "k \<equiv> \<lambda>j. qualityIdx (cv_quality (dc_variants content ! j))"
  defines "pidx \<equiv> indexOf qualityOrder (cp_defaultQuality (up_channels preferences))"
  assumes "dc_type content = TChannel" and "2 \<le> length (dc_variants content)"
  shows "(\<exists>i<length vs. selectBestVariant content preferences = Some (vs ! i)
           \<and> (\<forall>j<i. k j \<noteq> k i)
           \<and> ((\<exists>j<length vs. pidx \<le> k j) \<longrightarrow>
                 pidx \<le> k i \<and> (\<forall>j<length vs. pidx \<le> k j \<longrightarrow> k i \<le> k j))
           \<and> (\<not> (\<exists>j<length vs. pidx \<le> k j) \<longrightarrow> (\<forall>j<length vs. k i \<le> k j)))
         \<and> (qualityIdx (Some Q4K) < qualityIdx (Some FHD) \<and> qualityIdx (Some FHD) < qualityIdx (Some HD)
             \<and> qualityIdx (Some HD) < qualityIdx (Some SD) \<and> qualityIdx (Some SD) < qualityIdx None)
         \<and> sorted (map (\<lambda>e. qualityIdx (snd e)) (sortedIndices vs))"
proof -
  let ?p = "cp_defaultQuality (up_channels preferences)"
  define i where "i = selectBestQuality vs ?p"
  have ne: "dc_variants content \<noteq> []" using assms(5) by auto
  have c1: "i < length vs"
    using selectBestQuality_first_of_rank(1) [OF ne, of ?p] by (simp add: i_def vs_def)
  have c2: "\<forall>j<i. k j \<noteq> k i"
    using selectBestQuality_first_of_rank(2) [OF ne, of ?p] by (simp add: i_def vs_def k_def)
  have c3: "pidx \<le> k i \<and> (\<forall>j<length vs. pidx \<le> k j \<longrightarrow> k i \<le> k j)"
    if "\<exists>j<length vs. pidx \<le> k j"
    using selectBestQuality_first_of_rank(3) [OF ne, of ?p] that
    unfolding i_def vs_def k_def pidx_def by simp
  have c4: "\<forall>j<length vs. k i \<le> k j" if "\<not> (\<exists>j<length vs. pidx \<le> k j)"
    using selectBestQuality_first_of_rank(4) [OF ne, of ?p] that
    unfolding i_def vs_def k_def pidx_def by simp
  have sel: "selectBestVariant content preferences = Some (vs ! i)"
    using selectBestVariant_channel [OF assms(4,5)] by (simp add: vs_def i_def)
  have "\<exists>i<length vs. selectBestVariant content preferences = Some (vs ! i)
           \<and> (\<forall>j<i. k j \<noteq> k i)
           \<and> ((\<exists>j<length vs. pidx \<le> k j) \<longrightarrow>
                 pidx \<le> k i \<and> (\<forall>j<length vs. pidx \<le> k j \<longrightarrow> k i \<le> k j))
           \<and> (\<not> (\<exists>j<length vs. pidx \<le> k j) \<longrightarrow> (\<forall>j<length vs. k i \<le> k j))"
    using c1 c2 c3 c4 sel by (intro exI [of _ i]) blast
  moreover have "qualityIdx (Some Q4K) < qualityIdx (Some FHD) \<and> qualityIdx (Some FHD) < qualityIdx (Some HD)
         \<and> qualityIdx (Some HD) < qualityIdx (Some SD) \<and> qualityIdx (Some SD) < qualityIdx None"
    by (simp add: qualityIdx_def indexOf_qualityOrder)
  moreover have "sorted (map (\<lambda>e. qualityIdx (snd e)) (sortedIndices vs))"
    by (simp add: sortedIndices_def)
  ultimately show ?thesis by blast
qed

lemma sample_4k_sd_select:
  "selectBestQuality [mkVariant ''uhd'' (Some Q4K), mkVariant ''sd'' (Some SD)] HD = 1"
  by (simp add: selectBestQuality_def sortedIndices_def entries_def mkVariant_def
      qualityIdx_def indexOf_qualityOrder upt_rec)

theorem selectBestVariant_channel_at_or_below_witness:
  "dc_type (sampleChannel [mkVariant ''uhd'' (Some Q4K), mkVariant ''sd'' (Some SD)]) = TChannel
   \<and> 2 \<le> length (dc_variants (sampleChannel [mkVariant ''uhd'' (Some Q4K), mkVariant ''sd'' (Some SD)]))
   \<and> (\<exists>i<2. selectBestVariant (sampleChannel [mkVariant ''uhd'' (Some Q4K), mkVariant ''sd'' (Some SD)])
                (samplePreferences HD)
              = Some ([mkVariant ''uhd'' (Some Q4K), mkVariant ''sd'' (Some SD)] ! i))"
proof -
  let ?c = "sampleChannel [mkVariant ''uhd'' (Some Q4K), mkVariant ''sd'' (Some SD)]"
  have h1: "dc_type ?c = TChannel" by (simp add: sampleChannel_def)
  have h2: "2 \<le> length (dc_variants ?c)" by (simp add: sampleChannel_def)
  have vs: "dc_variants ?c = [mkVariant ''uhd'' (Some Q4K), mkVariant ''sd'' (Some SD)]"
    by (simp add: sampleChannel_def)
  from selectBestVariant_channel_at_or_below [OF h1 h2, of "samplePreferences HD"]
  obtain i where i: "i < length (dc_variants ?c)"
    "selectBestVariant ?c (samplePreferences HD) = Some (dc_variants ?c ! i)" by blast
  from i(1) have "i < 2" by (simp add: vs)
  with i(2) have "\<exists>i<2. selectBestVariant ?c (samplePreferences HD)
       = Some ([mkVariant ''uhd'' (Some Q4K), mkVariant ''sd'' (Some SD)] ! i)"
    unfolding vs by blast
  with h1 h2 show ?thesis by blast
qed

text \<open>
  C1 as the specification words it fails: with variants \<open>4K\<close> and \<open>SD\<close> and the
  preference \<open>HD\<close>, the tier \<open>4K\<close> is the closest one at or above the preference, and
  the code returns the \<open>SD\<close> variant.
\<close>

theorem selectBestVariant_closest_above_counterexample:
  "selectBestVariant (sampleChannel [mkVariant ''uhd'' (Some Q4K), mkVariant ''sd'' (Some SD)])
       (samplePreferences HD) = Some (mkVariant ''sd'' (Some SD))
   \<and> spec_closestAtLeast [mkVariant ''uhd'' (Some Q4K), mkVariant ''sd'' (Some SD)] HD
        (mkVariant ''uhd'' (Some Q4K))
   \<and> \<not> spec_closestAtLeast [mkVariant ''uhd'' (Some Q4K), mkVariant ''sd'' (Some SD)] HD
        (mkVariant ''sd'' (Some SD))"
proof -
  let ?c = "sampleChannel [mkVariant ''uhd'' (Some Q4K), mkVariant ''sd'' (Some SD)]"
  have "selectBestVariant ?c (samplePreferences HD) = Some (mkVariant ''sd'' (Some SD))"
    using sample_4k_sd_select
    by (simp add: selectBestVariant_def sampleChannel_def samplePreferences_def
        variantOrFirst_def at_index_def)
  moreover have "spec_closestAtLeast [mkVariant ''uhd'' (Some Q4K), mkVariant ''sd'' (Some SD)] HD
        (mkVariant ''uhd'' (Some Q4K))"
    by (simp add: spec_closestAtLeast_def meetsOrExceeds_def mkVariant_def qualityIdx_def
        indexOf_qualityOrder)
  moreover have "\<not> spec_closestAtLeast [mkVariant ''uhd'' (Some Q4K), mkVariant ''sd'' (Some SD)] HD
        (mkVariant ''sd'' (Some SD))"
    by (simp add: spec_closestAtLeast_def meetsOrExceeds_def mkVariant_def qualityIdx_def
        indexOf_qualityOrder)
  ultimately show ?thesis by blast
qed

section \<open>Properties of the EPG lookups\<close>

text \<open>
  C2, as the code has it. \<open>getCurrentProgram\<close> returns the first cached program, in
  stored order, whose closed interval \<open>[start, end]\<close> contains the current time, and
  none exactly when the channel has no cached entry or no cached program's closed
  interval contains the current time.
\<close>

theorem getCurrentProgram_closed_interval:
  "(getCurrentProgram epgData now channelId = None \<longleftrightarrow>
      (epgData channelId = None \<or>
       (\<exists>ps. epgData channelId = Some ps \<and>
          (\<forall>p\<in>set ps. \<not> (ep_startTimestamp p \<le> now \<and> now \<le> ep_endTimestamp p)))))
   \<and> (\<forall>p. getCurrentProgram epgData now channelId = Some p \<longrightarrow>
        (\<exists>ps i. epgData channelId = Some ps \<and> i < length ps \<and> p = ps ! i
           \<and> ep_startTimestamp p \<le> now \<and> now \<le> ep_endTimestamp p
           \<and> (\<forall>j<i. \<not> (ep_startTimestamp (ps ! j) \<le> now \<and> now \<le> ep_endTimestamp (ps ! j)))))"
proof (cases "epgData channelId")
  case None
  then show ?thesis by (simp add: getCurrentProgram_def)
next
  case (Some ps)
  let ?P = "\<lambda>p. now \<ge> ep_startTimestamp p \<and> now \<le> ep_endTimestamp p"
  have g: "getCurrentProgram epgData now channelId = find ?P ps"
    using Some by (cases ps) (simp_all add: getCurrentProgram_def)
  have "find ?P ps = None \<longleftrightarrow> (\<forall>p\<in>set ps. \<not> ?P p)"
    by (auto simp: find_None_iff)
  moreover have "\<exists>i. i < length ps \<and> p = ps ! i \<and> ?P p \<and> (\<forall>j<i. \<not> ?P (ps ! j))"
    if "find ?P ps = Some p" for p
    using that unfolding find_Some_iff by blast
  ultimately show ?thesis unfolding g using Some by auto
qed

theorem getCurrentProgram_closed_interval_witness:
  "getCurrentProgram sampleEpgData 1500 ''xtream-live-1'' = Some sampleProgram
   \<and> getCurrentProgram sampleEpgData 2001 ''xtream-live-1'' = None
   \<and> getCurrentProgram sampleEpgData 1500 ''xtream-live-2'' = None"
proof -
  have s: "sampleEpgData ''xtream-live-1'' = Some [sampleProgram]"
    "sampleEpgData ''xtream-live-2'' = None"
    by (simp_all add: sampleEpgData_def)
  have a: "getCurrentProgram sampleEpgData 2001 ''xtream-live-1'' = None"
    using getCurrentProgram_closed_interval [of sampleEpgData 2001 "''xtream-live-1''"] s
    by (simp add: sampleProgram_def)
  have b: "getCurrentProgram sampleEpgData 1500 ''xtream-live-2'' = None"
    using getCurrentProgram_closed_interval [of sampleEpgData 1500 "''xtream-live-2''"] s
    by simp
  have "getCurrentProgram sampleEpgData 1500 ''xtream-live-1'' \<noteq> None"
    using getCurrentProgram_closed_interval [of sampleEpgData 1500 "''xtream-live-1''"] s
    by (simp add: sampleProgram_def)
  then obtain p where p: "getCurrentProgram sampleEpgData 1500 ''xtream-live-1'' = Some p"
    by blast
  with getCurrentProgram_closed_interval [of sampleEpgData 1500 "''xtream-live-1''"] s
  have "p = sampleProgram" by auto
  with p a b show ?thesis by simp
qed

text \<open>
  C2 as the specification words it fails: a program whose end timestamp equals the
  current time is returned, although the half-open interval does not contain that time.
\<close>

theorem getCurrentProgram_half_open_counterexample:
  "getCurrentProgram sampleEpgData 2000 ''xtream-live-1'' = Some sampleProgram
   \<and> ep_endTimestamp sampleProgram = 2000
   \<and> \<not> spec_inHalfOpen 2000 sampleProgram"
  by (simp add: getCurrentProgram_def sampleEpgData_def sampleProgram_def spec_inHalfOpen_def)

section \<open>Properties of matching\<close>

text \<open>The capture groups a pattern can set.\<close>

fun groupsOf :: "regex \<Rightarrow> nat set" where
  "groupsOf (Seq a b) = groupsOf a \<union> groupsOf b"
| "groupsOf (Alt a b) = groupsOf a \<union> groupsOf b"
| "groupsOf (Opt a) = groupsOf a"
| "groupsOf (Grp n a) = insert n (groupsOf a)"
| "groupsOf (NotAhead a) = {}"
| "groupsOf r = {}"

lemma rmatch_keeps_group:
  "st' \<in> set (rmatch ic s r st) \<Longrightarrow> n \<notin> groupsOf r \<Longrightarrow> map_of (snd st') n = map_of (snd st) n"
proof (induction r arbitrary: st st')
  case (Seq r1 r2)
  then obtain mid where "mid \<in> set (rmatch ic s r1 st)" "st' \<in> set (rmatch ic s r2 mid)"
    by auto
  with Seq show ?case by (metis UnCI groupsOf.simps(1))
qed (auto split: if_splits simp: Let_def)

lemma take_takeWhile_prefix:
  assumes "k \<le> length (takeWhile P xs)"
  shows "take k xs = take k (takeWhile P xs)"
proof -
  have "take k xs = take k (takeWhile P xs @ dropWhile P xs)" by simp
  also have "\<dots> = take k (takeWhile P xs)" using assms by (simp del: takeWhile_dropWhile_id)
  finally show ?thesis .
qed

lemma rmatch_Grp_Rep:
  assumes "st' \<in> set (rmatch ic s (Grp n (Rep c lo hi)) st)"
  shows "\<exists>v. map_of (snd st') n = Some v \<and> lo \<le> length v \<and> list_all (inClass ic c) v"
proof -
  let ?w = "takeWhile (inClass ic c) (drop (fst st) s)"
  from assms obtain k where k: "lo \<le> k" "k \<le> length ?w"
    and st': "st' = (fst st + k, (n, take k (drop (fst st) s)) # snd st)"
    by (auto simp: Let_def split: option.splits)
  have eq: "take k (drop (fst st) s) = take k ?w"
    using k(2) by (rule take_takeWhile_prefix)
  have "set (take k ?w) \<subseteq> set ?w" by (rule set_take_subset)
  then have "list_all (inClass ic c) (take k ?w)"
    by (auto simp: list_all_iff dest: set_takeWhileD)
  moreover have "length (take k ?w) = k" using k(2) by simp
  ultimately show ?thesis using k(1) st' eq by simp
qed

lemma firstMatch_Some:
  assumes "firstMatch ic re s is = Some m"
  shows "\<exists>st rest. rmatch ic s re (m_start m, []) = st # rest \<and> m_end m = fst st \<and> m_groups m = snd st"
  using assms by (induction "is") (auto split: list.splits)

lemma regexExec_Some:
  assumes "regexExec ic re s = Some m"
  shows "\<exists>st. st \<in> set (rmatch ic s re (m_start m, [])) \<and> m_end m = fst st \<and> m_groups m = snd st"
  using firstMatch_Some [OF assms [unfolded regexExec_def]] by force

lemma rmatch_Seq_mem:
  "st' \<in> set (rmatch ic s (Seq a b) st) \<longleftrightarrow> (\<exists>mid\<in>set (rmatch ic s a st). st' \<in> set (rmatch ic s b mid))"
  by auto

text \<open>The country prefix pattern always sets its first group.\<close>

lemma country_prefix_group:
  assumes "regexExec True COUNTRY_PREFIX_PATTERN name = Some m"
  shows "matchGroup m 1 \<noteq> None"
proof -
  from regexExec_Some [OF assms] obtain st where
    st: "st \<in> set (rmatch True name COUNTRY_PREFIX_PATTERN (m_start m, []))" "m_groups m = snd st"
    by blast
  let ?tail = "seqs [Rep CSpace 0 None, Cls (COneOf '':-|''), Rep CSpace 0 None]"
  from st(1) obtain a b where
    b: "b \<in> set (rmatch True name (Grp 1 (Rep (CRange CHR ''A'' CHR ''Z'') 2 (Some 2))) a)"
    and t: "st \<in> set (rmatch True name ?tail b)"
    unfolding COUNTRY_PREFIX_PATTERN_def seqs.simps rmatch_Seq_mem by blast
  from rmatch_Grp_Rep [OF b] obtain v where "map_of (snd b) 1 = Some v" by blast
  moreover have "map_of (snd st) 1 = map_of (snd b) 1"
    using t by (rule rmatch_keeps_group) simp
  ultimately show ?thesis using st(2) by (simp add: matchGroup_def)
qed

lemma extractCountryPrefix_total: "\<exists>r. extractCountryPrefix name cleanName = Inr r"
  using country_prefix_group [of name]
  by (auto simp: extractCountryPrefix_def Let_def split: option.splits)

lemma extractFields_total: "\<exists>r. extractFields name = Inr r"
proof -
  obtain pc c1 where "extractCountryPrefix name name = Inr (pc, c1)"
    using extractCountryPrefix_total [of name name] by force
  then show ?thesis
    by (simp add: extractFields_def Let_def split: prod.splits)
qed

lemma parseContentMetadata_total: "\<exists>m. parseContentMetadata name = Inr m"
proof -
  obtain f c where "extractFields name = Inr (f, c)"
    using extractFields_total [of name] by force
  then show ?thesis
    by (simp add: parseContentMetadata_def Let_def split: prod.splits)
qed

section \<open>Properties of the metadata extraction\<close>

lemma digit_not_space: "isDigit c \<Longrightarrow> \<not> isSpace c"
  by (auto simp: isDigit_def isSpace_def)

lemma digit_not_sign: "isDigit c \<Longrightarrow> c \<noteq> CHR ''-'' \<and> c \<noteq> CHR ''+''"
  by (auto simp: isDigit_def code_def)

lemma parseInt_digits:
  assumes "v \<noteq> []" and "list_all isDigit v"
  shows "parseInt v = Num (int (digitsValue v 0))"
proof -
  from assms obtain c cs where v: "v = c # cs" and c: "isDigit c"
    by (cases v) auto
  have tw: "takeWhile isDigit v = v" using assms(2) by (simp add: list_all_iff takeWhile_eq_all_conv)
  have dw: "dropWhile isSpace v = v" using v c by (simp add: digit_not_space)
  have sg: "hd v \<noteq> CHR ''-''" "hd v \<noteq> CHR ''+''" using v c digit_not_sign by auto
  show ?thesis
    using sg assms(1) by (simp add: parseInt_def dw Let_def tw)
qed

lemma season_episode_group:
  assumes "regexExec True SEASON_EPISODE_PATTERN name = Some m"
  shows "\<exists>v. matchGroup m 1 = Some v \<and> v \<noteq> [] \<and> list_all isDigit v"
proof -
  from regexExec_Some [OF assms] obtain st where
    st: "st \<in> set (rmatch True name SEASON_EPISODE_PATTERN (m_start m, []))" "m_groups m = snd st"
    by blast
  let ?tail = "Opt (Seq (Lit ''E'') (Grp 2 (Rep CDigit 1 (Some 2))))"
  from st(1) obtain a b where
    b: "b \<in> set (rmatch True name (Grp 1 (Rep CDigit 1 (Some 2))) a)"
    and t: "st \<in> set (rmatch True name ?tail b)"
    unfolding SEASON_EPISODE_PATTERN_def seqs.simps rmatch_Seq_mem by blast
  from rmatch_Grp_Rep [OF b] obtain v where v: "map_of (snd b) 1 = Some v" "1 \<le> length v"
    "list_all (inClass True CDigit) v" by blast
  moreover have "map_of (snd st) 1 = map_of (snd b) 1"
    using t by (rule rmatch_keeps_group) simp
  ultimately show ?thesis using st(2) by (auto simp: matchGroup_def list_all_iff)
qed

lemma season_group:
  assumes "regexExec True SEASON_PATTERN name = Some m"
  shows "\<exists>v. matchGroup m 1 = Some v \<and> v \<noteq> [] \<and> list_all isDigit v"
proof -
  from regexExec_Some [OF assms] obtain st where
    st: "st \<in> set (rmatch True name SEASON_PATTERN (m_start m, []))" "m_groups m = snd st"
    by blast
  from st(1) obtain a b where
    b: "b \<in> set (rmatch True name (Grp 1 (Rep CDigit 1 (Some 2))) a)"
    and t: "st \<in> set (rmatch True name WordB b)"
    unfolding SEASON_PATTERN_def seqs.simps rmatch_Seq_mem by blast
  from rmatch_Grp_Rep [OF b] obtain v where v: "map_of (snd b) 1 = Some v" "1 \<le> length v"
    "list_all (inClass True CDigit) v" by blast
  moreover have "map_of (snd st) 1 = map_of (snd b) 1"
    using t by (rule rmatch_keeps_group) simp
  ultimately show ?thesis using st(2) by (auto simp: matchGroup_def list_all_iff)
qed

lemma extractSeasonEpisode_season:
  assumes "extractSeasonEpisode name c = (Some x, e, c')"
  shows "\<exists>n. x = Num (int n)"
proof (cases "regexExec True SEASON_EPISODE_PATTERN name")
  case (Some m)
  from season_episode_group [OF Some] obtain v where
    "matchGroup m 1 = Some v" "v \<noteq> []" "list_all isDigit v" by blast
  then have "parseIntGroup (matchGroup m 1) = Num (int (digitsValue v 0))"
    by (simp add: parseIntGroup_def parseInt_digits)
  with assms Some show ?thesis by (auto simp: extractSeasonEpisode_def)
next
  case None
  show ?thesis
  proof (cases "regexExec True SEASON_PATTERN name")
    case (Some m)
    from season_group [OF Some] obtain v where
      "matchGroup m 1 = Some v" "v \<noteq> []" "list_all isDigit v" by blast
    then have "parseIntGroup (matchGroup m 1) = Num (int (digitsValue v 0))"
      by (simp add: parseIntGroup_def parseInt_digits)
    with assms Some None show ?thesis by (auto simp: extractSeasonEpisode_def)
  next
    case n2: None
    with assms None show ?thesis by (simp add: extractSeasonEpisode_def)
  qed
qed

lemma findCountry_nonempty:
  "findCountry ps name = Some c \<Longrightarrow> c \<in> fst ` set ps"
  by (induction ps) (auto split: if_splits)

lemma COUNTRIES_nonempty: "c \<in> set COUNTRIES \<Longrightarrow> c \<noteq> []"
  by (auto simp: COUNTRIES_def)

lemma COUNTRY_PATTERNS_keys: "map fst COUNTRY_PATTERNS = COUNTRIES"
  by (simp add: COUNTRY_PATTERNS_def COUNTRIES_def)

lemma extractCountryPrefix_Some:
  "extractCountryPrefix name c = Inr (Some p, c') \<Longrightarrow> p \<in> set COUNTRIES"
  by (auto simp: extractCountryPrefix_def Let_def split: option.splits if_splits)

text \<open>What the fields of a parsed title can be.\<close>

lemma parseContentMetadata_fields:
  assumes "parseContentMetadata name = Inr m"
  shows "(\<forall>c. md_country m = Some c \<longrightarrow> c \<in> set COUNTRIES)"
    and "(\<forall>x. md_season m = Some x \<longrightarrow> (\<exists>n. x = Num (int n)))"
proof -
  from assms obtain country quality language year season episode c5 where
    f: "extractFields name = Inr ((country, quality, language, year, season, episode), c5)"
    and m: "md_country m = country" "md_season m = season"
    by (auto simp: parseContentMetadata_def Let_def split: sum.splits prod.splits)
  from f obtain pc c1 c4 where p: "extractCountryPrefix name name = Inr (pc, c1)"
    and country: "country = (case pc of None \<Rightarrow> findCountry COUNTRY_PATTERNS name
        | Some c \<Rightarrow> if c = [] then findCountry COUNTRY_PATTERNS name else Some c)"
    and se: "extractSeasonEpisode name c4 = (season, episode, c5)"
    by (auto simp: extractFields_def Let_def split: sum.splits prod.splits)
  have fc: "c \<in> set COUNTRIES" if "findCountry COUNTRY_PATTERNS name = Some c" for c
    using findCountry_nonempty [OF that] COUNTRY_PATTERNS_keys by (metis list.set_map)
  show "\<forall>c. md_country m = Some c \<longrightarrow> c \<in> set COUNTRIES"
    using m(1) country fc p
    by (auto split: option.splits if_splits dest: extractCountryPrefix_Some)
  show "\<forall>x. md_season m = Some x \<longrightarrow> (\<exists>n. x = Num (int n))"
    using m(2) se by (auto dest: extractSeasonEpisode_season)
qed

subsection \<open>Fields and patterns\<close>

lemma extractLanguage_fst:
  "fst (extractLanguage ps name c) = map_option fst (find (\<lambda>e. regexTest True (snd e) name) ps)"
  by (induction ps) auto

lemma extractQuality_fst:
  "fst (extractQuality ps name c) = map_option fst (find (\<lambda>e. regexTest True (snd e) name) ps)"
  by (induction ps) auto

lemma findCountry_find:
  "findCountry ps name = map_option fst (find (\<lambda>e. regexTest True (snd e) name) ps)"
  by (induction ps) auto

lemma find_none_list_all: "list_all (\<lambda>e. \<not> P e) ps \<Longrightarrow> find P ps = None"
  by (induction ps) auto

lemma extractCountryPrefix_None:
  "\<not> regexTest True COUNTRY_PREFIX_PATTERN name \<Longrightarrow> extractCountryPrefix name c = Inr (None, c)"
  by (simp add: extractCountryPrefix_def regexTest_def)

lemma extractQuality_none:
  "list_all (\<lambda>e. \<not> regexTest True (snd e) name) ps \<Longrightarrow> extractQuality ps name c = (None, c)"
  by (induction ps) auto

lemma extractLanguage_none:
  "list_all (\<lambda>e. \<not> regexTest True (snd e) name) ps \<Longrightarrow> extractLanguage ps name c = (None, c)"
  by (induction ps) auto

text \<open>The fields of the result in terms of the stages.\<close>

lemma parseContentMetadata_stages:
  assumes "parseContentMetadata name = Inr m"
  shows "\<exists>pc c1 c2 c3 c4 c5.
           extractCountryPrefix name name = Inr (pc, c1)
         \<and> md_country m = (case pc of None \<Rightarrow> findCountry COUNTRY_PATTERNS name
               | Some c \<Rightarrow> if c = [] then findCountry COUNTRY_PATTERNS name else Some c)
         \<and> (md_quality m, c2) = extractQuality QUALITY_PATTERNS name c1
         \<and> (md_language m, c3) = extractLanguage LANGUAGE_PATTERNS name c2
         \<and> (md_year m, c4) = extractYear name c3
         \<and> (md_season m, md_episode m, c5) = extractSeasonEpisode name c4
         \<and> extractFields name
             = Inr ((md_country m, md_quality m, md_language m, md_year m, md_season m, md_episode m), c5)
         \<and> md_cleanName m = (if finalClean c5 = [] then name else finalClean c5)"
  using assms
  by (auto simp: parseContentMetadata_def extractFields_def Let_def split: sum.splits prod.splits)

text \<open>
  C5. Language extraction tries the tags \<open>MULTI\<close>, \<open>VFF\<close>, \<open>VF\<close>, \<open>TRUEFRENCH\<close>,
  \<open>VOSTFR\<close>, \<open>VO\<close> in this order and the first whose pattern matches the title wins;
  \<open>VFF Drama\<close> yields \<open>VFF\<close> and \<open>Show VOSTFR\<close> yields \<open>VOSTFR\<close>.
\<close>

lemma vff_drama_tests:
  "regexTest True (wordOf [''MULTI'', ''MULTi'']) ''VFF Drama'' = False"
  "regexTest True (wordOf [''VFF'', ''FRENCH'']) ''VFF Drama'' = True"
  by code_simp+

lemma show_vostfr_tests:
  "regexTest True (wordOf [''MULTI'', ''MULTi'']) ''Show VOSTFR'' = False"
  "regexTest True (wordOf [''VFF'', ''FRENCH'']) ''Show VOSTFR'' = False"
  "regexTest True (seqs [WordB, Lit ''VF'', WordB]) ''Show VOSTFR'' = False"
  "regexTest True (wordOf [''TRUEFRENCH'', ''TRUE FRENCH'']) ''Show VOSTFR'' = False"
  "regexTest True (wordOf [''VOSTFR'', ''STFR'']) ''Show VOSTFR'' = True"
  by code_simp+

theorem language_first_match_wins:
  "map fst LANGUAGE_PATTERNS = [''MULTI'', ''VFF'', ''VF'', ''TRUEFRENCH'', ''VOSTFR'', ''VO'']
   \<and> (\<exists>m. parseContentMetadata name = Inr m
         \<and> md_language m = map_option fst (find (\<lambda>e. regexTest True (snd e) name) LANGUAGE_PATTERNS))
   \<and> (\<exists>m. parseContentMetadata ''VFF Drama'' = Inr m \<and> md_language m = Some ''VFF'')
   \<and> (\<exists>m. parseContentMetadata ''Show VOSTFR'' = Inr m \<and> md_language m = Some ''VOSTFR'')"
proof -
  have lang: "\<exists>m. parseContentMetadata n = Inr m
         \<and> md_language m = map_option fst (find (\<lambda>e. regexTest True (snd e) n) LANGUAGE_PATTERNS)" for n
  proof -
    obtain m where m: "parseContentMetadata n = Inr m"
      using parseContentMetadata_total by blast
    from parseContentMetadata_stages [OF m] obtain c2 c3 where
      "(md_language m, c3) = extractLanguage LANGUAGE_PATTERNS n c2" by blast
    then have "md_language m = fst (extractLanguage LANGUAGE_PATTERNS n c2)"
      by (metis fst_conv)
    with m show ?thesis by (simp add: extractLanguage_fst)
  qed
  have "map_option fst (find (\<lambda>e. regexTest True (snd e) ''VFF Drama'') LANGUAGE_PATTERNS) = Some ''VFF''"
    by (simp add: LANGUAGE_PATTERNS_def vff_drama_tests del: seqs.simps)
  with lang [of "''VFF Drama''"]
  have a: "\<exists>m. parseContentMetadata ''VFF Drama'' = Inr m \<and> md_language m = Some ''VFF''" by simp
  have "map_option fst (find (\<lambda>e. regexTest True (snd e) ''Show VOSTFR'') LANGUAGE_PATTERNS) = Some ''VOSTFR''"
    by (simp add: LANGUAGE_PATTERNS_def show_vostfr_tests del: seqs.simps)
  with lang [of "''Show VOSTFR''"]
  have b: "\<exists>m. parseContentMetadata ''Show VOSTFR'' = Inr m \<and> md_language m = Some ''VOSTFR''" by simp
  have "map fst LANGUAGE_PATTERNS = [''MULTI'', ''VFF'', ''VF'', ''TRUEFRENCH'', ''VOSTFR'', ''VO'']"
    by (simp add: LANGUAGE_PATTERNS_def)
  with lang [of name] a b show ?thesis by blast
qed

text \<open>
  C8. For every title the extractor returns a \<open>ContentMetadata\<close> and raises nothing; a
  field none of whose patterns matches the title is absent; and when the working copy is
  empty after the final cleaning, the clean name is the raw title, unmodified.
\<close>

theorem parseContentMetadata_never_fails:
  "\<exists>m fs working. parseContentMetadata name = Inr m \<and> extractFields name = Inr (fs, working)
     \<and> (\<not> regexTest True COUNTRY_PREFIX_PATTERN name
          \<and> list_all (\<lambda>e. \<not> regexTest True (snd e) name) COUNTRY_PATTERNS \<longrightarrow> md_country m = None)
     \<and> (list_all (\<lambda>e. \<not> regexTest True (snd e) name) QUALITY_PATTERNS \<longrightarrow> md_quality m = None)
     \<and> (list_all (\<lambda>e. \<not> regexTest True (snd e) name) LANGUAGE_PATTERNS \<longrightarrow> md_language m = None)
     \<and> (\<not> regexTest False YEAR_PATTERN name \<longrightarrow> md_year m = None)
     \<and> (\<not> regexTest True SEASON_EPISODE_PATTERN name \<and> \<not> regexTest True SEASON_PATTERN name
          \<longrightarrow> md_season m = None)
     \<and> (\<not> regexTest True SEASON_EPISODE_PATTERN name \<longrightarrow> md_episode m = None)
     \<and> (finalClean working = [] \<longrightarrow> md_cleanName m = name)
     \<and> (finalClean working \<noteq> [] \<longrightarrow> md_cleanName m = finalClean working)"
proof -
  obtain m where m: "parseContentMetadata name = Inr m"
    using parseContentMetadata_total by blast
  from parseContentMetadata_stages [OF m] obtain pc c1 c2 c3 c4 c5 where
    p: "extractCountryPrefix name name = Inr (pc, c1)"
    and country: "md_country m = (case pc of None \<Rightarrow> findCountry COUNTRY_PATTERNS name
               | Some c \<Rightarrow> if c = [] then findCountry COUNTRY_PATTERNS name else Some c)"
    and q: "(md_quality m, c2) = extractQuality QUALITY_PATTERNS name c1"
    and l: "(md_language m, c3) = extractLanguage LANGUAGE_PATTERNS name c2"
    and y: "(md_year m, c4) = extractYear name c3"
    and s: "(md_season m, md_episode m, c5) = extractSeasonEpisode name c4"
    and f: "extractFields name
             = Inr ((md_country m, md_quality m, md_language m, md_year m, md_season m, md_episode m), c5)"
    and cn: "md_cleanName m = (if finalClean c5 = [] then name else finalClean c5)"
    by blast
  have 1: "md_country m = None" if "\<not> regexTest True COUNTRY_PREFIX_PATTERN name"
    "list_all (\<lambda>e. \<not> regexTest True (snd e) name) COUNTRY_PATTERNS"
  proof -
    from that(1) p have "pc = None" by (simp add: extractCountryPrefix_None)
    with country that(2) show ?thesis by (simp add: findCountry_find find_none_list_all)
  qed
  have 2: "md_quality m = None" if "list_all (\<lambda>e. \<not> regexTest True (snd e) name) QUALITY_PATTERNS"
  proof -
    from q have "md_quality m = fst (extractQuality QUALITY_PATTERNS name c1)" by (metis fst_conv)
    with that show ?thesis by (simp add: extractQuality_fst find_none_list_all)
  qed
  have 3: "md_language m = None" if "list_all (\<lambda>e. \<not> regexTest True (snd e) name) LANGUAGE_PATTERNS"
  proof -
    from l have "md_language m = fst (extractLanguage LANGUAGE_PATTERNS name c2)" by (metis fst_conv)
    with that show ?thesis by (simp add: extractLanguage_fst find_none_list_all)
  qed
  have 4: "md_year m = None" if "\<not> regexTest False YEAR_PATTERN name"
    using that y by (simp add: extractYear_def regexTest_def)
  have 5: "md_season m = None"
    if "\<not> regexTest True SEASON_EPISODE_PATTERN name" "\<not> regexTest True SEASON_PATTERN name"
    using that s by (simp add: extractSeasonEpisode_def regexTest_def)
  have 6: "md_episode m = None" if "\<not> regexTest True SEASON_EPISODE_PATTERN name"
    using that s by (auto simp: extractSeasonEpisode_def regexTest_def split: option.splits)
  show ?thesis
    using m f 1 2 3 4 5 6 cn
    by (intro exI [of _ m] exI [of _ c5]
        exI [of _ "(md_country m, md_quality m, md_language m, md_year m, md_season m, md_episode m)"])
       simp
qed

lemma code_char_of: "n < 256 \<Longrightarrow> code (char_of n) = n"
  by (simp add: code_def)

lemma canonicalize_upper: "65 \<le> n \<Longrightarrow> n \<le> 90 \<Longrightarrow> canonicalize (char_of n) = n"
  by (simp add: canonicalize_def code_char_of)

lemma list_ex_upt: "list_ex P [a..<b] \<longleftrightarrow> (\<exists>n. a \<le> n \<and> n < b \<and> P n)"
  by (auto simp: list_ex_iff)

lemma inClass_letter:
  "inClass True (CRange CHR ''A'' CHR ''Z'') c
     \<longleftrightarrow> (65 \<le> code c \<and> code c \<le> 90) \<or> (97 \<le> code c \<and> code c \<le> 122)"
proof -
  have lo: "code CHR ''A'' = 65" and hi: "code CHR ''Z'' = 90" by (simp_all add: code_def)
  have "inClass True (CRange CHR ''A'' CHR ''Z'') c
      \<longleftrightarrow> list_ex (\<lambda>n. canonicalize (char_of n) = canonicalize c) [65..<Suc 90]"
    by (simp only: inClass.simps lo hi if_True)
  also have "\<dots> \<longleftrightarrow> (\<exists>n::nat. 65 \<le> n \<and> n < Suc 90 \<and> canonicalize (char_of n) = canonicalize c)"
    by (simp only: list_ex_upt)
  also have "\<dots> \<longleftrightarrow> 65 \<le> canonicalize c \<and> canonicalize c \<le> 90"
  proof
    assume "\<exists>n::nat. 65 \<le> n \<and> n < Suc 90 \<and> canonicalize (char_of n) = canonicalize c"
    then obtain n :: nat where n: "65 \<le> n" "n \<le> 90" "canonicalize (char_of n) = canonicalize c"
      by auto
    with canonicalize_upper [of n] show "65 \<le> canonicalize c \<and> canonicalize c \<le> 90" by simp
  next
    assume a: "65 \<le> canonicalize c \<and> canonicalize c \<le> 90"
    with canonicalize_upper [of "canonicalize c"]
    have "canonicalize (char_of (canonicalize c)) = canonicalize c" by simp
    with a show "\<exists>n::nat. 65 \<le> n \<and> n < Suc 90 \<and> canonicalize (char_of n) = canonicalize c"
      by (intro exI [of _ "canonicalize c"]) simp
  qed
  also have "\<dots> \<longleftrightarrow> (65 \<le> code c \<and> code c \<le> 90) \<or> (97 \<le> code c \<and> code c \<le> 122)"
    by (auto simp: canonicalize_def Let_def)
  finally show ?thesis .
qed

lemma dash_prefix_test: "\<not> regexTest True COUNTRY_PREFIX_PATTERN ''-''"
  by (simp add: regexTest_def regexExec_def COUNTRY_PREFIX_PATTERN_def inClass_letter code_def
      del: inClass.simps(4))

lemma dash_tests:
  "list_all (\<lambda>e. \<not> regexTest True (snd e) ''-'') COUNTRY_PATTERNS"
  "list_all (\<lambda>e. \<not> regexTest True (snd e) ''-'') QUALITY_PATTERNS"
  "list_all (\<lambda>e. \<not> regexTest True (snd e) ''-'') LANGUAGE_PATTERNS"
  "\<not> regexTest False YEAR_PATTERN ''-''"
  "\<not> regexTest True SEASON_EPISODE_PATTERN ''-''"
  "\<not> regexTest True SEASON_PATTERN ''-''"
  by code_simp+

lemma dash_clean: "finalClean ''-'' = []"
  by code_simp

theorem parseContentMetadata_never_fails_witness:
  "\<exists>m. parseContentMetadata ''-'' = Inr m \<and> md_cleanName m = ''-'' \<and> md_country m = None
       \<and> md_quality m = None \<and> md_language m = None \<and> md_year m = None
       \<and> md_season m = None \<and> md_episode m = None"
proof -
  have ef: "extractFields ''-'' = Inr ((None, None, None, None, None, None), ''-'')"
    using dash_tests dash_prefix_test
    by (simp add: extractFields_def extractCountryPrefix_None findCountry_find find_none_list_all
        extractQuality_none extractLanguage_none extractYear_def extractSeasonEpisode_def
        regexTest_def)
  from parseContentMetadata_never_fails [of "''-''"] obtain m fs working where
    m: "parseContentMetadata ''-'' = Inr m" and w: "extractFields ''-'' = Inr (fs, working)"
    and c: "\<not> regexTest True COUNTRY_PREFIX_PATTERN ''-''
          \<and> list_all (\<lambda>e. \<not> regexTest True (snd e) ''-'') COUNTRY_PATTERNS \<longrightarrow> md_country m = None"
    and q: "list_all (\<lambda>e. \<not> regexTest True (snd e) ''-'') QUALITY_PATTERNS \<longrightarrow> md_quality m = None"
    and l: "list_all (\<lambda>e. \<not> regexTest True (snd e) ''-'') LANGUAGE_PATTERNS \<longrightarrow> md_language m = None"
    and y: "\<not> regexTest False YEAR_PATTERN ''-'' \<longrightarrow> md_year m = None"
    and s: "\<not> regexTest True SEASON_EPISODE_PATTERN ''-'' \<and> \<not> regexTest True SEASON_PATTERN ''-''
          \<longrightarrow> md_season m = None"
    and e: "\<not> regexTest True SEASON_EPISODE_PATTERN ''-'' \<longrightarrow> md_episode m = None"
    and n: "finalClean working = [] \<longrightarrow> md_cleanName m = ''-''"
    by blast
  from w ef have "working = ''-''" by simp
  with n dash_clean have "md_cleanName m = ''-''" by simp
  with m c q l y s e dash_tests dash_prefix_test show ?thesis by blast
qed

section \<open>Properties of the deduplication\<close>

text \<open>Since parsing never raises, each step has a pure value.\<close>

definition metaOf :: "string \<Rightarrow> ContentMetadata" where
  "metaOf name = projr (parseContentMetadata name)"

definition keyOf :: "ContentType \<Rightarrow> Channel \<Rightarrow> string" where
  "keyOf type x = projr (getContentKey (ch_name x) type)"

definition variantOf :: "Channel \<Rightarrow> ContentVariant" where
  "variantOf x = projr (toVariant x)"

lemma parseContentMetadata_metaOf: "parseContentMetadata name = Inr (metaOf name)"
  using parseContentMetadata_total [of name] by (auto simp: metaOf_def)

lemma getContentKey_keyOf: "getContentKey (ch_name x) type = Inr (keyOf type x)"
  by (simp add: keyOf_def getContentKey_def parseContentMetadata_metaOf)

lemma toVariant_variantOf: "toVariant x = Inr (variantOf x)"
  by (simp add: variantOf_def toVariant_def parseContentMetadata_metaOf)

lemma mapE_toVariant: "mapE toVariant xs = Inr (map variantOf xs)"
  by (induction xs) (simp_all add: toVariant_variantOf)

lemma groupByKey_foldl:
  "groupByKey type xs groups = Inr (foldl (\<lambda>g x. addToGroup g (keyOf type x) x) groups xs)"
  by (induction xs arbitrary: groups) (simp_all add: getContentKey_keyOf)

lemma groupChannels_filter:
  "groupChannels xs groups = groupByKey TChannel (filter isLiveRecord xs) groups"
  by (induction xs arbitrary: groups) (simp_all add: isLiveRecord_def getContentKey_keyOf)

subsection \<open>The map\<close>

lemma map_of_mapSet: "map_of (mapSet m k v) = (map_of m)(k \<mapsto> v)"
  by (induction m) (auto simp: fun_eq_iff)

lemma keys_mapSet: "set (map fst (mapSet m k v)) = insert k (set (map fst m))"
proof (induction m)
  case Nil
  then show ?case by simp
next
  case (Cons e m)
  obtain a b where e: "e = (a, b)" by (cases e)
  show ?case
  proof (cases "a = k")
    case True
    then show ?thesis by (simp add: e)
  next
    case False
    with Cons show ?thesis by (simp add: e insert_commute)
  qed
qed

lemma distinct_mapSet: "distinct (map fst m) \<Longrightarrow> distinct (map fst (mapSet m k v))"
proof (induction m)
  case Nil
  then show ?case by simp
next
  case (Cons e m)
  have "set (map fst (mapSet m k v)) = insert k (set (map fst m))" by (rule keys_mapSet)
  with Cons show ?case by (cases e) auto
qed

lemma size_addToGroup:
  "sum_list (map (\<lambda>e. length (snd e)) (addToGroup m k x)) = Suc (sum_list (map (\<lambda>e. length (snd e)) m))"
  by (induction m) (auto simp: addToGroup_def mapGet_def Let_def)

text \<open>The state of the map after the records \<open>xs\<close>: one entry per key that occurs, holding
  the records of that key in their order.\<close>

definition grouped :: "(Channel \<Rightarrow> string) \<Rightarrow> Channel list \<Rightarrow> Channel list jsmap \<Rightarrow> bool" where
  "grouped kf xs m \<longleftrightarrow>
     distinct (map fst m) \<and>
     (\<forall>k. map_of m k = (if k \<in> kf ` set xs then Some (filter (\<lambda>x. kf x = k) xs) else None))"

lemma grouped_empty: "grouped kf [] []"
  by (simp add: grouped_def)

lemma grouped_step:
  assumes "grouped kf xs m"
  shows "grouped kf (xs @ [x]) (addToGroup m (kf x) x)"
proof -
  let ?ex = "case mapGet m (kf x) of None \<Rightarrow> [] | Some g \<Rightarrow> g"
  have ex: "?ex = filter (\<lambda>y. kf y = kf x) xs"
  proof (cases "kf x \<in> kf ` set xs")
    case True
    with assms show ?thesis by (simp add: grouped_def mapGet_def)
  next
    case False
    then have "filter (\<lambda>y. kf y = kf x) xs = []"
      unfolding filter_empty_conv by (metis imageI)
    with False assms show ?thesis by (simp add: grouped_def mapGet_def)
  qed
  have d: "distinct (map fst (addToGroup m (kf x) x))"
    using assms by (simp add: addToGroup_def Let_def grouped_def distinct_mapSet)
  have "map_of (addToGroup m (kf x) x) k =
        (if k \<in> kf ` set (xs @ [x]) then Some (filter (\<lambda>y. kf y = k) (xs @ [x])) else None)" for k
  proof (cases "k = kf x")
    case True
    then show ?thesis by (simp add: addToGroup_def Let_def map_of_mapSet ex)
  next
    case False
    then have "map_of (addToGroup m (kf x) x) k = map_of m k"
      by (simp add: addToGroup_def Let_def map_of_mapSet)
    with False assms show ?thesis by (auto simp: grouped_def)
  qed
  with d show ?thesis by (simp add: grouped_def)
qed

lemma grouped_foldl:
  assumes "grouped kf xs m"
  shows "grouped kf (xs @ ys) (foldl (\<lambda>g x. addToGroup g (kf x) x) m ys)"
  using assms
proof (induction ys arbitrary: xs m)
  case Nil
  then show ?case by simp
next
  case (Cons y ys)
  from grouped_step [OF Cons.prems] have "grouped kf (xs @ [y]) (addToGroup m (kf y) y)" .
  from Cons.IH [OF this] show ?case by simp
qed

lemma size_foldl:
  "sum_list (map (\<lambda>e. length (snd e)) (foldl (\<lambda>g x. addToGroup g (kf x) x) m ys))
   = length ys + sum_list (map (\<lambda>e. length (snd e)) m)"
  by (induction ys arbitrary: m) (simp_all add: size_addToGroup)

lemma grouped_entry:
  assumes "grouped kf xs m" and "(k, g) \<in> set m"
  shows "g = filter (\<lambda>x. kf x = k) xs \<and> g \<noteq> []"
proof -
  have "distinct (map fst m)" using assms(1) by (simp add: grouped_def)
  then have "map_of m k = Some g" using assms(2) by (rule map_of_is_SomeI)
  moreover have "map_of m k = (if k \<in> kf ` set xs then Some (filter (\<lambda>x. kf x = k) xs) else None)"
    using assms(1) by (simp add: grouped_def)
  ultimately have "k \<in> kf ` set xs" and g: "g = filter (\<lambda>x. kf x = k) xs"
    by (simp_all split: if_splits)
  then obtain x where "x \<in> set xs" "kf x = k" by auto
  then have "filter (\<lambda>x. kf x = k) xs \<noteq> []" by (auto simp: filter_empty_conv)
  with g show ?thesis by simp
qed

lemma grouped_key:
  assumes "grouped kf xs m" and "x \<in> set xs"
  shows "(kf x, filter (\<lambda>y. kf y = kf x) xs) \<in> set m"
proof -
  have "map_of m (kf x) = Some (filter (\<lambda>y. kf y = kf x) xs)"
    using assms by (auto simp: grouped_def)
  then show ?thesis by (rule map_of_SomeD)
qed

subsection \<open>The contents built from the map\<close>

definition contentOf :: "ContentType \<Rightarrow> Channel list \<Rightarrow> DeduplicatedContent" where
  "contentOf type g =
     \<lparr>dc_id = ch_id (hd g), dc_name = md_cleanName (metaOf (ch_name (hd g))),
      dc_logo = ch_logo (hd g), dc_group = ch_group (hd g), dc_type = type,
      dc_metadata = metaOf (ch_name (hd g)), dc_variants = map variantOf g\<rparr>"

lemma buildContents_map:
  assumes "\<forall>e\<in>set m. snd e \<noteq> []"
  shows "buildContents type m = Inr (map (\<lambda>e. contentOf type (snd e)) m)"
  using assms
proof (induction m)
  case Nil
  then show ?case by simp
next
  case (Cons e m)
  obtain k g where e: "e = (k, g)" by (cases e)
  with Cons.prems obtain first others where g: "g = first # others" by (cases g) auto
  from Cons have "buildContents type m = Inr (map (\<lambda>e. contentOf type (snd e)) m)" by simp
  moreover have "mapE toVariant (first # others) = Inr (map variantOf (first # others))"
    by (rule mapE_toVariant)
  ultimately show ?case
    by (simp add: e g parseContentMetadata_metaOf contentOf_def del: mapE.simps)
qed

lemma deduplicate_groupByKey:
  "deduplicate type channels =
     (case groupByKey type (filter (matchesType type) channels) [] of
        Inl e \<Rightarrow> Inl e | Inr groups \<Rightarrow> buildContents type groups)"
proof (cases type)
  case TChannel
  have "matchesType TChannel = isLiveRecord" by (simp add: fun_eq_iff matchesType_def)
  then show ?thesis
    unfolding TChannel by (simp add: deduplicate_def deduplicateChannels_def groupChannels_filter)
next
  case TMovie
  have "matchesType TMovie = isMovie" by (simp add: fun_eq_iff matchesType_def)
  then show ?thesis
    unfolding TMovie by (simp add: deduplicate_def deduplicateMovies_def Let_def)
next
  case TSeries
  have "matchesType TSeries = isSeries" by (simp add: fun_eq_iff matchesType_def)
  then show ?thesis
    unfolding TSeries by (simp add: deduplicate_def deduplicateSeries_def Let_def)
qed

lemma deduplicate_result:
  fixes type :: ContentType and channels :: "Channel list"
  defines "xs \<equiv> filter (matchesType type) channels"
  shows "\<exists>m. grouped (keyOf type) xs m
            \<and> sum_list (map (\<lambda>e. length (snd e)) m) = length xs
            \<and> deduplicate type channels = Inr (map (\<lambda>e. contentOf type (snd e)) m)"
proof -
  define m where "m = foldl (\<lambda>g x. addToGroup g (keyOf type x) x) [] xs"
  have g: "grouped (keyOf type) xs m"
    using grouped_foldl [OF grouped_empty, of "keyOf type" xs] by (simp add: m_def)
  have sz: "sum_list (map (\<lambda>e. length (snd e)) m) = length xs"
    by (simp add: m_def size_foldl)
  have ne: "\<forall>e\<in>set m. snd e \<noteq> []"
    using grouped_entry [OF g] by (metis prod.collapse)
  have "deduplicate type channels = Inr (map (\<lambda>e. contentOf type (snd e)) m)"
    by (simp add: deduplicate_groupByKey groupByKey_foldl buildContents_map [OF ne]
        flip: xs_def m_def)
  with g sz show ?thesis by blast
qed

lemma mapE_length: "mapE f xs = Inr ys \<Longrightarrow> length ys = length xs"
  by (induction xs arbitrary: ys) (auto split: sum.splits)

lemma grouped_keys:
  assumes "grouped kf xs m"
  shows "distinct (map fst m)" and "set (map fst m) = kf ` set xs"
proof -
  show "distinct (map fst m)" using assms by (simp add: grouped_def)
  have "k \<in> set (map fst m) \<longleftrightarrow> k \<in> kf ` set xs" for k
  proof -
    have "k \<in> set (map fst m) \<longleftrightarrow> map_of m k \<noteq> None"
      by (simp add: map_of_eq_None_iff)
    also have "\<dots> \<longleftrightarrow> k \<in> kf ` set xs"
      using assms by (simp add: grouped_def)
    finally show ?thesis .
  qed
  then show "set (map fst m) = kf ` set xs" by blast
qed

text \<open>
  C7. The deduplication functions partition the records of their type (live records for
  channels, records that are not live and have stream type vod for movies, series for
  series) by content key. The returned contents stand one to one for the distinct keys
  of these records: every record's key has a content, no two contents share a key, the
  variants of a content are the variants of exactly the records of its key, in their
  order in the input, so no content is empty; and the variants of all contents together
  are as many as the records.
\<close>

theorem deduplicate_partitions:
  "\<exists>result keys. deduplicate type channels = Inr result
     \<and> length result = length keys \<and> distinct keys
     \<and> (\<forall>x\<in>set (filter (matchesType type) channels).
           \<exists>k\<in>set keys. getContentKey (ch_name x) type = Inr k)
     \<and> (\<forall>k\<in>set keys. \<exists>x\<in>set (filter (matchesType type) channels).
           getContentKey (ch_name x) type = Inr k)
     \<and> (\<forall>i<length keys.
           dc_variants (result ! i) \<noteq> []
         \<and> mapE toVariant
               (filter (\<lambda>x. getContentKey (ch_name x) type = Inr (keys ! i))
                  (filter (matchesType type) channels))
             = Inr (dc_variants (result ! i)))
     \<and> sum_list (map (\<lambda>g. length (dc_variants g)) result)
         = length (filter (matchesType type) channels)"
proof -
  let ?xs = "filter (matchesType type) channels"
  from deduplicate_result [of type channels] obtain m where
    g: "grouped (keyOf type) ?xs m"
    and sz: "sum_list (map (\<lambda>e. length (snd e)) m) = length ?xs"
    and r: "deduplicate type channels = Inr (map (\<lambda>e. contentOf type (snd e)) m)"
    by blast
  let ?result = "map (\<lambda>e. contentOf type (snd e)) m"
  let ?keys = "map fst m"
  note ks = grouped_keys [OF g]
  have keyf: "(\<lambda>x. getContentKey (ch_name x) type = Inr k) = (\<lambda>x. keyOf type x = k)" for k
    by (simp add: getContentKey_keyOf)
  have a: "\<forall>x\<in>set ?xs. \<exists>k\<in>set ?keys. getContentKey (ch_name x) type = Inr k"
  proof
    fix x assume "x \<in> set ?xs"
    then have "keyOf type x \<in> set ?keys" unfolding ks(2) by (rule imageI)
    then show "\<exists>k\<in>set ?keys. getContentKey (ch_name x) type = Inr k"
      using getContentKey_keyOf by blast
  qed
  have b: "\<forall>k\<in>set ?keys. \<exists>x\<in>set ?xs. getContentKey (ch_name x) type = Inr k"
  proof
    fix k assume "k \<in> set ?keys"
    then obtain x where "x \<in> set ?xs" "k = keyOf type x" unfolding ks(2) by blast
    then show "\<exists>x\<in>set ?xs. getContentKey (ch_name x) type = Inr k"
      using getContentKey_keyOf by blast
  qed
  have c: "dc_variants (?result ! i) \<noteq> []
         \<and> mapE toVariant (filter (\<lambda>x. getContentKey (ch_name x) type = Inr (?keys ! i)) ?xs)
             = Inr (dc_variants (?result ! i))" if "i < length ?keys" for i
  proof -
    from that have i: "i < length m" by simp
    obtain k grp where e: "m ! i = (k, grp)" by (cases "m ! i")
    with i have mem: "(k, grp) \<in> set m" by (metis nth_mem)
    from grouped_entry [OF g mem] have grp: "grp = filter (\<lambda>x. keyOf type x = k) ?xs" "grp \<noteq> []"
      by blast+
    have v: "dc_variants (?result ! i) = map variantOf grp"
      using i e by (simp add: contentOf_def)
    have k: "?keys ! i = k" using i e by simp
    have "mapE toVariant (filter (\<lambda>x. getContentKey (ch_name x) type = Inr k) ?xs)
        = Inr (map variantOf grp)"
      unfolding keyf grp(1) [symmetric] by (rule mapE_toVariant)
    with v k grp(2) show ?thesis by simp
  qed
  have "sum_list (map (\<lambda>c. length (dc_variants c)) ?result) = sum_list (map (\<lambda>e. length (snd e)) m)"
    by (simp add: comp_def contentOf_def)
  with sz have d: "sum_list (map (\<lambda>c. length (dc_variants c)) ?result) = length ?xs" by simp
  have l: "length ?result = length ?keys" by simp
  from r l ks(1) a b c d show ?thesis by blast
qed

lemma distinct_singleton: "distinct ks \<Longrightarrow> set ks = {k} \<Longrightarrow> ks = [k]"
proof (cases ks)
  case Nil
  assume "set ks = {k}" with Nil show ?thesis by simp
next
  case (Cons a as)
  assume d: "distinct ks" and s: "set ks = {k}"
  from s Cons have a: "a = k" by auto
  have "as = []"
  proof (cases as)
    case Nil then show ?thesis .
  next
    case (Cons b bs)
    with s \<open>ks = a # as\<close> have "b = k" by auto
    with d a \<open>ks = a # as\<close> Cons show ?thesis by simp
  qed
  with a Cons show ?thesis by simp
qed

theorem deduplicate_partitions_witness:
  "\<exists>g. deduplicate TChannel [sampleRecord ''1'' ''TF1'' True Live,
            sampleRecord ''2'' ''Film (2010)'' False Vod, sampleRecord ''3'' ''TF1'' True Live] = Inr [g]
       \<and> length (dc_variants g) = 2"
proof -
  let ?a = "sampleRecord ''1'' ''TF1'' True Live"
  let ?b = "sampleRecord ''3'' ''TF1'' True Live"
  let ?chs = "[?a, sampleRecord ''2'' ''Film (2010)'' False Vod, ?b]"
  have xs: "filter (matchesType TChannel) ?chs = [?a, ?b]"
    by (simp add: matchesType_def isLiveRecord_def sampleRecord_def)
  obtain k0 where k0: "getContentKey ''TF1'' TChannel = Inr k0"
    using parseContentMetadata_total [of "''TF1''"] by (auto simp: getContentKey_def)
  have names: "ch_name ?a = ''TF1''" "ch_name ?b = ''TF1''" by (simp_all add: sampleRecord_def)
  from deduplicate_partitions [of TChannel ?chs] obtain result keys where
    r: "deduplicate TChannel ?chs = Inr result"
    and len: "length result = length keys" and dist: "distinct keys"
    and cover: "\<forall>x\<in>set [?a, ?b]. \<exists>k\<in>set keys. getContentKey (ch_name x) TChannel = Inr k"
    and only: "\<forall>k\<in>set keys. \<exists>x\<in>set [?a, ?b]. getContentKey (ch_name x) TChannel = Inr k"
    and each: "\<forall>i<length keys.
           dc_variants (result ! i) \<noteq> []
         \<and> mapE toVariant
               (filter (\<lambda>x. getContentKey (ch_name x) TChannel = Inr (keys ! i)) [?a, ?b])
             = Inr (dc_variants (result ! i))"
    unfolding xs by blast
  from cover names k0 have "k0 \<in> set keys" by auto
  moreover from only names k0 have "\<forall>k\<in>set keys. k = k0" by auto
  ultimately have "set keys = {k0}" by blast
  with dist have keys: "keys = [k0]" by (rule distinct_singleton)
  with len obtain g where g: "result = [g]" by (cases result) auto
  from each keys g names k0 have "mapE toVariant [?a, ?b] = Inr (dc_variants g)" by simp
  from mapE_length [OF this] have "length (dc_variants g) = 2" by simp
  with r g show ?thesis by blast
qed

lemma showNat_0: "showNat 0 = ''0''"
  by code_simp

text \<open>
  C6. The content key is a function of the raw name: for a channel the lower-cased clean
  name, \<open>_\<close>, and the country or \<open>unknown\<close>; for a series the lower-cased clean name,
  \<open>_s\<close>, and the season or \<open>0\<close>. Two live records whose names give the same clean
  name and country are variants of the same channel content, whatever the list they come
  in.
\<close>

theorem getContentKey_formula:
  "(\<exists>m. parseContentMetadata name = Inr m
       \<and> getContentKey name TChannel
           = Inr (toLowerCase (md_cleanName m) @ ''_''
                  @ (case md_country m of None \<Rightarrow> ''unknown'' | Some c \<Rightarrow> c))
       \<and> getContentKey name TSeries
           = Inr (toLowerCase (md_cleanName m) @ ''_s''
                  @ (case md_season m of None \<Rightarrow> ''0'' | Some n \<Rightarrow> numberToString n)))
   \<and> (\<forall>a b. a \<in> set channels \<and> b \<in> set channels
          \<and> ch_isLive a = Some True \<and> ch_isLive b = Some True
          \<and> (\<exists>ma mb. parseContentMetadata (ch_name a) = Inr ma
                \<and> parseContentMetadata (ch_name b) = Inr mb
                \<and> md_cleanName ma = md_cleanName mb \<and> md_country ma = md_country mb)
        \<longrightarrow> (\<exists>result g members. deduplicateChannels channels = Inr result \<and> g \<in> set result
               \<and> a \<in> set members \<and> b \<in> set members
               \<and> mapE toVariant members = Inr (dc_variants g)))"
proof (intro conjI allI impI)
  obtain m where m: "parseContentMetadata name = Inr m"
    using parseContentMetadata_total by blast
  note f = parseContentMetadata_fields [OF m]
  have c: "countryOrUnknown (md_country m) = (case md_country m of None \<Rightarrow> ''unknown'' | Some c \<Rightarrow> c)"
    using f(1) by (auto simp: countryOrUnknown_def dest: COUNTRIES_nonempty split: option.splits)
  have s: "numberOrZero (md_season m) = (case md_season m of None \<Rightarrow> ''0'' | Some n \<Rightarrow> numberToString n)"
    using f(2) by (auto simp: numberOrZero_def numberToString_def showNat_0 split: option.splits)
  show "\<exists>m. parseContentMetadata name = Inr m
       \<and> getContentKey name TChannel
           = Inr (toLowerCase (md_cleanName m) @ ''_''
                  @ (case md_country m of None \<Rightarrow> ''unknown'' | Some c \<Rightarrow> c))
       \<and> getContentKey name TSeries
           = Inr (toLowerCase (md_cleanName m) @ ''_s''
                  @ (case md_season m of None \<Rightarrow> ''0'' | Some n \<Rightarrow> numberToString n))"
    using m c s by (simp add: getContentKey_def)
next
  fix a b
  assume h: "a \<in> set channels \<and> b \<in> set channels
          \<and> ch_isLive a = Some True \<and> ch_isLive b = Some True
          \<and> (\<exists>ma mb. parseContentMetadata (ch_name a) = Inr ma
                \<and> parseContentMetadata (ch_name b) = Inr mb
                \<and> md_cleanName ma = md_cleanName mb \<and> md_country ma = md_country mb)"
  let ?xs = "filter (matchesType TChannel) channels"
  from h have ab: "a \<in> set ?xs" "b \<in> set ?xs"
    by (simp_all add: matchesType_def isLiveRecord_def)
  from h have "getContentKey (ch_name a) TChannel = getContentKey (ch_name b) TChannel"
    by (auto simp: getContentKey_def)
  then have k: "keyOf TChannel b = keyOf TChannel a" by (simp add: keyOf_def)
  from deduplicate_result [of TChannel channels] obtain m where
    g: "grouped (keyOf TChannel) ?xs m"
    and r: "deduplicate TChannel channels = Inr (map (\<lambda>e. contentOf TChannel (snd e)) m)"
    by blast
  let ?members = "filter (\<lambda>y. keyOf TChannel y = keyOf TChannel a) ?xs"
  have e: "(keyOf TChannel a, ?members) \<in> set m"
    using g ab(1) by (rule grouped_key)
  then have "contentOf TChannel ?members \<in> set (map (\<lambda>e. contentOf TChannel (snd e)) m)"
    by force
  moreover have "a \<in> set ?members" "b \<in> set ?members" using ab k by simp_all
  moreover have "mapE toVariant ?members = Inr (dc_variants (contentOf TChannel ?members))"
    by (simp add: mapE_toVariant contentOf_def)
  moreover have "deduplicateChannels channels = Inr (map (\<lambda>e. contentOf TChannel (snd e)) m)"
    using r by (simp add: deduplicate_def)
  ultimately show "\<exists>result g members. deduplicateChannels channels = Inr result \<and> g \<in> set result
               \<and> a \<in> set members \<and> b \<in> set members
               \<and> mapE toVariant members = Inr (dc_variants g)"
    by blast
qed

theorem getContentKey_formula_witness:
  "\<exists>result g members.
     deduplicateChannels [sampleRecord ''1'' ''TF1'' True Live, sampleRecord ''2'' ''M6'' True Live,
        sampleRecord ''3'' ''TF1'' True Live] = Inr result
     \<and> g \<in> set result
     \<and> sampleRecord ''1'' ''TF1'' True Live \<in> set members
     \<and> sampleRecord ''3'' ''TF1'' True Live \<in> set members
     \<and> mapE toVariant members = Inr (dc_variants g)"
proof -
  let ?a = "sampleRecord ''1'' ''TF1'' True Live"
  let ?b = "sampleRecord ''3'' ''TF1'' True Live"
  let ?chs = "[?a, sampleRecord ''2'' ''M6'' True Live, ?b]"
  obtain m where m: "parseContentMetadata ''TF1'' = Inr m"
    using parseContentMetadata_total by blast
  have "?a \<in> set ?chs \<and> ?b \<in> set ?chs
          \<and> ch_isLive ?a = Some True \<and> ch_isLive ?b = Some True
          \<and> (\<exists>ma mb. parseContentMetadata (ch_name ?a) = Inr ma
                \<and> parseContentMetadata (ch_name ?b) = Inr mb
                \<and> md_cleanName ma = md_cleanName mb \<and> md_country ma = md_country mb)"
    using m by (simp add: sampleRecord_def)
  with getContentKey_formula [of "''TF1''" ?chs] show ?thesis by blast
qed

section \<open>Properties of the playlist parser\<close>



lemma startsWith_Cons: "startsWith l (c # p) \<longleftrightarrow> (\<exists>t. l = c # t \<and> startsWith t p)"
  by (cases l) (auto simp: startsWith_def)



lemma url_not_directive:
  "isUrlLine l \<Longrightarrow> l \<noteq> [] \<and> \<not> startsWith l ''#'' \<and> \<not> startsWith l ''#EXTM3U'' \<and> \<not> startsWith l ''#EXTINF:''"
  by (auto simp: isUrlLine_def startsWith_Cons)








subsection \<open>Counting\<close>






subsection \<open>Lines and text\<close>











section \<open>Properties of the EPG text decoding\<close>

lemma firstMatch_None_iff:
  "firstMatch ic re s is = None \<longleftrightarrow> (\<forall>i\<in>set is. rmatch ic s re (i, []) = [])"
  by (induction "is") (auto split: list.splits)

lemma regexTest_iff:
  "regexTest ic re s \<longleftrightarrow> (\<exists>i\<le>length s. rmatch ic s re (i, []) \<noteq> [])"
proof -
  have "set [0..<Suc (length s)] = {i. i \<le> length s}" by auto
  then show ?thesis
    by (simp add: regexTest_def regexExec_def firstMatch_None_iff del: upt_Suc)
qed

lemma inClass_base64: "inClass False BASE64_CLASS c = isBase64Char c"
  by (auto simp: BASE64_CLASS_def isBase64Char_def code_def charEq_def)

lemma inClass_control: "inClass False CONTROL_CLASS c = isFilteredControl c"
  by (simp add: CONTROL_CLASS_def isFilteredControl_def code_def)

lemma base64_pattern_at:
  "rmatch False s BASE64_PATTERN (i, []) \<noteq> [] \<longleftrightarrow> i = 0 \<and> s \<noteq> [] \<and> list_all isBase64Char s"
proof -
  let ?n = "length (takeWhile (inClass False BASE64_CLASS) (drop i s))"
  have full: "takeWhile isBase64Char s = s \<longleftrightarrow> list_all isBase64Char s"
    by (simp add: takeWhile_eq_all_conv list_all_iff)
  have len: "length (takeWhile isBase64Char s) = length s \<longleftrightarrow> takeWhile isBase64Char s = s"
    by (metis takeWhile_eq_take take_all_iff order_refl length_takeWhile_le le_antisym)
  have "rmatch False s BASE64_PATTERN (i, []) \<noteq> []
      \<longleftrightarrow> (\<exists>st. st \<in> set (rmatch False s BASE64_PATTERN (i, [])))"
    by (cases "rmatch False s BASE64_PATTERN (i, [])") auto
  also have "\<dots> \<longleftrightarrow> i = 0 \<and> (\<exists>k. 1 \<le> k \<and> k \<le> length (takeWhile isBase64Char s) \<and> k = length s)"
    unfolding BASE64_PATTERN_def seqs.simps rmatch_Seq_mem
    by (auto simp: Let_def inClass_base64 [abs_def] split: if_splits)
  also have "\<dots> \<longleftrightarrow> i = 0 \<and> s \<noteq> [] \<and> list_all isBase64Char s"
    using len full length_takeWhile_le [of isBase64Char s]
    by (cases s) (auto simp: Suc_le_eq)
  finally show ?thesis .
qed

lemma base64_pattern_test:
  "regexTest False BASE64_PATTERN s \<longleftrightarrow> s \<noteq> [] \<and> list_all isBase64Char s"
  unfolding regexTest_iff base64_pattern_at by auto

lemma control_pattern_test:
  "regexTest False CONTROL_PATTERN b \<longleftrightarrow> list_ex isFilteredControl b"
proof -
  have "regexTest False CONTROL_PATTERN b \<longleftrightarrow> (\<exists>i<length b. isFilteredControl (b ! i))"
    unfolding regexTest_iff CONTROL_PATTERN_def
    by (auto simp: inClass_control)
  then show ?thesis by (simp add: list_ex_length)
qed

text \<open>
  C3, as the code has it. A title or description is replaced by its decoding exactly
  when it is not empty, consists solely of the characters \<open>A-Z a-z 0-9 + / =\<close>, is
  longer than 4, \<open>atob\<close> accepts it, the bytes decoded hold no character from 0 to 8
  or from 14 to 31, and these bytes are valid UTF-8; the new text is then the UTF-8
  reading of the bytes. In every other case the raw string is used as it is.
\<close>

theorem decodeEpgText_decodes_iff:
  "(title \<noteq> [] \<and> list_all isBase64Char title \<and> 4 < length title
      \<and> atob title = Some bytes \<and> \<not> list_ex isFilteredControl bytes
      \<and> decodeURIComponent (escape bytes) = Some text
    \<longrightarrow> decodeEpgText title = text)
   \<and> (\<not> (title \<noteq> [] \<and> list_all isBase64Char title \<and> 4 < length title
          \<and> (\<exists>b t. atob title = Some b \<and> \<not> list_ex isFilteredControl b
                 \<and> decodeURIComponent (escape b) = Some t))
    \<longrightarrow> decodeEpgText title = map code title)"
  by (auto simp: decodeEpgText_def base64_pattern_test control_pattern_test split: option.splits)

lemma sample_hello:
  "atob ''SGVsbG8='' = Some ''Hello''"
  "decodeURIComponent (escape ''Hello'') = Some [72, 101, 108, 108, 111]"
  by (simp_all add: atob_def stripPadding_def endsWith_def isAsciiWhitespace_def base64Value_def
      code_def escape_def escapeChar_def Let_def char_of_def bit_Suc_0_iff)

theorem decodeEpgText_decodes_iff_witness:
  "decodeEpgText ''SGVsbG8='' = [72, 101, 108, 108, 111]
   \<and> decodeEpgText ''News'' = map code ''News''"
proof -
  have h: "''SGVsbG8='' \<noteq> [] \<and> list_all isBase64Char ''SGVsbG8='' \<and> 4 < length ''SGVsbG8=''
      \<and> atob ''SGVsbG8='' = Some ''Hello'' \<and> \<not> list_ex isFilteredControl ''Hello''
      \<and> decodeURIComponent (escape ''Hello'') = Some [72, 101, 108, 108, 111]"
    by (simp add: sample_hello isBase64Char_def isFilteredControl_def code_def)
  have n: "\<not> (''News'' \<noteq> [] \<and> list_all isBase64Char ''News'' \<and> 4 < length ''News''
          \<and> (\<exists>b t. atob ''News'' = Some b \<and> \<not> list_ex isFilteredControl b
                 \<and> decodeURIComponent (escape b) = Some t))"
    by simp
  from decodeEpgText_decodes_iff [of "''SGVsbG8=''" "''Hello''" "[72, 101, 108, 108, 111]"] h
  have a: "decodeEpgText ''SGVsbG8='' = [72, 101, 108, 108, 111]" by blast
  from decodeEpgText_decodes_iff [of "''News''"] n
  have b: "decodeEpgText ''News'' = map code ''News''" by blast
  from a b show ?thesis by simp
qed

text \<open>
  C3 as the specification words it fails in both directions. The decoding of
  \<open>SGkKWW8h\<close> holds a line feed, a control character, and the text is decoded all the
  same. The text \<open>/////w==\<close> passes the three checks of the specification, its
  decoding being four bytes 255, and is kept as it is, because these bytes are not UTF-8.
\<close>

lemma sample_newline:
  "atob ''SGkKWW8h'' = Some [CHR ''H'', CHR ''i'', CHR 0x0A, CHR ''Y'', CHR ''o'', CHR ''!'']"
  "decodeURIComponent (escape [CHR ''H'', CHR ''i'', CHR 0x0A, CHR ''Y'', CHR ''o'', CHR ''!''])
     = Some [72, 105, 10, 89, 111, 33]"
  by (simp_all add: atob_def stripPadding_def endsWith_def isAsciiWhitespace_def base64Value_def
      code_def escape_def escapeChar_def hexDigit_def hexValue_def Let_def char_of_def bit_Suc_0_iff)

lemma sample_invalid:
  "atob ''/////w=='' = Some [CHR 0xFF, CHR 0xFF, CHR 0xFF, CHR 0xFF]"
  "decodeURIComponent (escape [CHR 0xFF, CHR 0xFF, CHR 0xFF, CHR 0xFF]) = None"
  by (simp_all add: atob_def stripPadding_def endsWith_def isAsciiWhitespace_def base64Value_def
      code_def escape_def escapeChar_def hexDigit_def hexValue_def Let_def char_of_def bit_Suc_0_iff)

theorem decodeEpgText_control_counterexample:
  "atob ''SGkKWW8h'' = Some [CHR ''H'', CHR ''i'', CHR 0x0A, CHR ''Y'', CHR ''o'', CHR ''!'']
   \<and> list_ex spec_isControl [CHR ''H'', CHR ''i'', CHR 0x0A, CHR ''Y'', CHR ''o'', CHR ''!'']
   \<and> decodeEpgText ''SGkKWW8h'' = [72, 105, 10, 89, 111, 33]
   \<and> decodeEpgText ''SGkKWW8h'' \<noteq> map code ''SGkKWW8h''
   \<and> list_all isBase64Char ''/////w=='' \<and> 4 < length ''/////w==''
   \<and> atob ''/////w=='' = Some [CHR 0xFF, CHR 0xFF, CHR 0xFF, CHR 0xFF]
   \<and> \<not> list_ex spec_isControl [CHR 0xFF, CHR 0xFF, CHR 0xFF, CHR 0xFF]
   \<and> decodeEpgText ''/////w=='' = map code ''/////w==''"
proof -
  have a: "decodeEpgText ''SGkKWW8h'' = [72, 105, 10, 89, 111, 33]"
    by (simp add: decodeEpgText_def base64_pattern_test control_pattern_test sample_newline
        isBase64Char_def isFilteredControl_def code_def)
  have b: "decodeEpgText ''/////w=='' = map code ''/////w==''"
    by (simp add: decodeEpgText_def base64_pattern_test control_pattern_test sample_invalid
        isBase64Char_def isFilteredControl_def code_def)
  have c: "list_ex spec_isControl [CHR ''H'', CHR ''i'', CHR 0x0A, CHR ''Y'', CHR ''o'', CHR ''!'']"
    "\<not> list_ex spec_isControl [CHR 0xFF, CHR 0xFF, CHR 0xFF, CHR 0xFF]"
    "list_all isBase64Char ''/////w==''"
    by (simp_all add: spec_isControl_def isBase64Char_def code_def)
  have d: "decodeEpgText ''SGkKWW8h'' \<noteq> map code ''SGkKWW8h''"
    unfolding a by simp
  from a b c d sample_newline(1) sample_invalid(1) show ?thesis by simp
qed

end
